theory Spec2Isabelle
  imports Main "HOL-Library.Multiset"
begin

section \<open>The s-expression decoder of ch12/ex10 (decode.go)\<close>

text \<open>
  The decoder reads a stream of lexical tokens and fills a destination value whose shape
  is given by its Go type. The model below follows \<^verbatim>\<open>decode.go\<close> function by function:
  \<^item> the lexer is the list of tokens that are still to be read, the current token first;
  \<^item> a Go type is a value of \<open>ty\<close>, a Go value a value of \<open>val\<close>, and a
    \<^verbatim>\<open>reflect.Value\<close> is an \<open>rvalue\<close>;
  \<^item> every panic of the source is a value of \<open>panic\<close>, and each function returns
    \<open>panic + result\<close>, the panic on the left;
  \<^item> the \<^verbatim>\<open>for\<close> loops of \<^verbatim>\<open>readList\<close> are the recursive functions
    \<open>readArray\<close>, \<open>readSlice\<close>, \<open>readStruct\<close> and \<open>readMap\<close>.
\<close>

subsection \<open>Tokens and the lexer\<close>

text \<open>
  \<^verbatim>\<open>text/scanner\<close> in the mode \<^verbatim>\<open>GoTokens\<close> yields identifiers, integers, floats,
  character literals, strings, raw strings and single characters, each with its source
  text; comments are skipped and the end of the input is \<^verbatim>\<open>scanner.EOF\<close>. The scanner
  is not part of the repository: the model starts from the token sequence it produces.
  The empty list is the lexer at \<^verbatim>\<open>EOF\<close>, where \<^verbatim>\<open>Scan\<close> keeps returning
  \<^verbatim>\<open>EOF\<close> and the token text is empty.
  \<^verbatim>\<open>
  type lexer struct {
      scan  scanner.Scanner
      token rune
  }
  func (lex *lexer) next()        { lex.token = lex.scan.Scan() }
  func (lex *lexer) text() string { return lex.scan.TokenText() }
  \<close>
\<close>

datatype token = TokIdent string | TokString string | TokInt string | TokFloat string
  | TokChar string | TokRawString string | TokPunct char

type_synonym lexer = "token list"

definition lex_token :: "lexer \<Rightarrow> token option" where
  "lex_token lx = (case lx of [] \<Rightarrow> None | t # _ \<Rightarrow> Some t)"

definition lex_next :: "lexer \<Rightarrow> lexer" where
  "lex_next lx = (case lx of [] \<Rightarrow> [] | _ # rest \<Rightarrow> rest)"

fun token_text :: "token \<Rightarrow> string" where
  "token_text (TokIdent s) = s"
| "token_text (TokString s) = s"
| "token_text (TokInt s) = s"
| "token_text (TokFloat s) = s"
| "token_text (TokChar s) = s"
| "token_text (TokRawString s) = s"
| "token_text (TokPunct c) = [c]"

definition lex_text :: "lexer \<Rightarrow> string" where
  "lex_text lx = (case lx of [] \<Rightarrow> [] | t # _ \<Rightarrow> token_text t)"

definition lparen :: token where
  "lparen = TokPunct (CHR ''('')"

definition rparen :: token where
  "rparen = TokPunct (CHR '')'')"

text \<open>The text of a string token: the characters between double quotes.\<close>

definition dq :: "string \<Rightarrow> string" where
  "dq s = CHR 0x22 # s @ [CHR 0x22]"

subsection \<open>Types and values\<close>

text \<open>
  The Go types the decoder distinguishes: the scalar kinds, arrays, slices, structs (a list
  of named fields, without embedded fields), maps, the empty interface and, standing for
  the kinds that \<^verbatim>\<open>readList\<close> rejects, pointers. \<^verbatim>\<open>int\<close> and \<^verbatim>\<open>uint\<close> have
  64 bits. A value carries what is needed to recover its type, as a \<^verbatim>\<open>reflect.Value\<close>
  does. A \<^verbatim>\<open>float64\<close> is kept as the decimal text it was parsed from (floating point
  arithmetic is not interpreted), a nil slice and an empty slice are both the empty list,
  a map is an association list in insertion order (\<open>None\<close> for the nil map), and
  storage shared between slices is not modelled.
\<close>

datatype ty = TBool | TInt | TUint | TFloat | TString
  | TArray nat ty | TSlice ty | TStruct "(string \<times> ty) list" | TMap ty ty
  | TInterface | TPtr ty

datatype val = VBool bool | VInt int | VUint nat | VFloat string | VString string
  | VArray ty "val list" | VSlice ty "val list" | VStruct "(string \<times> val) list"
  | VMap ty ty "(val \<times> val) list option" | VIface "val option" | VPtr ty "val option"

fun typeOf :: "val \<Rightarrow> ty" where
  "typeOf (VBool _) = TBool"
| "typeOf (VInt _) = TInt"
| "typeOf (VUint _) = TUint"
| "typeOf (VFloat _) = TFloat"
| "typeOf (VString _) = TString"
| "typeOf (VArray t vs) = TArray (length vs) t"
| "typeOf (VSlice t _) = TSlice t"
| "typeOf (VStruct fs) = TStruct (map (\<lambda>(n, v). (n, typeOf v)) fs)"
| "typeOf (VMap k e _) = TMap k e"
| "typeOf (VIface _) = TInterface"
| "typeOf (VPtr t _) = TPtr t"

text \<open>\<^verbatim>\<open>reflect.Zero(t)\<close>, which is also the content of \<^verbatim>\<open>reflect.New(t).Elem()\<close>.\<close>

fun zero :: "ty \<Rightarrow> val" where
  "zero TBool = VBool False"
| "zero TInt = VInt 0"
| "zero TUint = VUint 0"
| "zero TFloat = VFloat ''0''"
| "zero TString = VString []"
| "zero (TArray n t) = VArray t (replicate n (zero t))"
| "zero (TSlice t) = VSlice t []"
| "zero (TStruct fs) = VStruct (map (\<lambda>(n, t). (n, zero t)) fs)"
| "zero (TMap k e) = VMap k e None"
| "zero TInterface = VIface None"
| "zero (TPtr t) = VPtr t None"

subsection \<open>Panics\<close>

text \<open>
  The panics of \<^verbatim>\<open>decode.go\<close> itself (the first six), the run-time panics of indexing
  and slicing a string, and the panics of package \<^verbatim>\<open>reflect\<close> that the decoder can
  provoke. The formatted messages are replaced by their arguments.
\<close>

datatype panic =
    EndOfFile
  | GotWant string char
  | WantFieldName string
  | UnexpectedToken string
  | CannotDecodeList ty
  | UnknownType string
  | IndexOutOfRange
  | SliceBoundsOutOfRange
  | ReflectZeroValue
  | ReflectUnexported
  | ReflectKind string
  | ReflectAssign
  | ReflectArrayIndex
  | ReflectNegativeLen
  | ReflectMapKey
  | Unhashable

subsection \<open>Library functions: strconv and strings\<close>

text \<open>
  \<^verbatim>\<open>strings.HasPrefix\<close>; \<^verbatim>\<open>strings.IndexRune\<close> for an ASCII character, -1 when it
  does not occur; and the slice expression \<^verbatim>\<open>s[lo:hi]\<close>, which panics unless
  \<^verbatim>\<open>0 <= lo <= hi <= len(s)\<close>.
\<close>

definition HasPrefix :: "string \<Rightarrow> string \<Rightarrow> bool" where
  "HasPrefix s p = (take (length p) s = p)"

fun IndexRune :: "string \<Rightarrow> char \<Rightarrow> int" where
  "IndexRune [] c = -1"
| "IndexRune (x # xs) c =
     (if x = c then 0 else (let k = IndexRune xs c in if k < 0 then -1 else k + 1))"

definition substr :: "string \<Rightarrow> int \<Rightarrow> int \<Rightarrow> panic + string" where
  "substr s lo hi =
     (if 0 \<le> lo \<and> lo \<le> hi \<and> hi \<le> int (length s)
      then Inr (take (nat (hi - lo)) (drop (nat lo) s))
      else Inl SliceBoundsOutOfRange)"

text \<open>
  \<^verbatim>\<open>strconv.Atoi\<close>: an optional sign and decimal digits, nothing else. The callers drop
  the error, so the model returns the number alone: 0 after a syntax error and the nearest
  64-bit bound after a range error.
\<close>

definition digit_val :: "char \<Rightarrow> int option" where
  "digit_val c = (let k = IndexRune ''0123456789'' c in if k < 0 then None else Some k)"

fun digits10 :: "int \<Rightarrow> string \<Rightarrow> int option" where
  "digits10 n [] = Some n"
| "digits10 n (c # cs) =
     (case digit_val c of None \<Rightarrow> None | Some d \<Rightarrow> digits10 (10 * n + d) cs)"

definition ParseUint10 :: "string \<Rightarrow> int option" where
  "ParseUint10 s = (if s = [] then None else digits10 0 s)"

definition Atoi :: "string \<Rightarrow> int" where
  "Atoi s =
     (let neg = (s \<noteq> [] \<and> hd s = CHR ''-'');
          body = (if s \<noteq> [] \<and> (hd s = CHR ''+'' \<or> hd s = CHR ''-'') then tl s else s)
      in case ParseUint10 body of
           None \<Rightarrow> 0
         | Some un \<Rightarrow>
             (if \<not> neg \<and> un \<ge> 9223372036854775808 then 9223372036854775807
              else if neg \<and> un > 9223372036854775808 then - 9223372036854775808
              else if neg then - un else un))"

text \<open>
  \<^verbatim>\<open>strconv.Unquote\<close>, \<open>None\<close> for its error. A text in double quotes is read one
  character or escape sequence at a time (\<open>UnquoteChar\<close>), a text in back quotes is taken
  as it is without carriage returns, a text in single quotes holds one character. Bytes that
  are not ASCII pass unchanged, which is what Go does on valid UTF-8.
\<close>

definition hex_val :: "char \<Rightarrow> nat option" where
  "hex_val c =
     (let k = IndexRune ''0123456789abcdef'' c; l = IndexRune ''0123456789ABCDEF'' c
      in if 0 \<le> k then Some (nat k) else if 0 \<le> l then Some (nat l) else None)"

fun digits_base :: "nat \<Rightarrow> nat \<Rightarrow> string \<Rightarrow> nat option" where
  "digits_base b n [] = Some n"
| "digits_base b n (c # cs) =
     (case hex_val c of
        None \<Rightarrow> None
      | Some d \<Rightarrow> (if d < b then digits_base b (b * n + d) cs else None))"

definition utf8_encode :: "nat \<Rightarrow> string" where
  "utf8_encode r =
     (if r < 128 then [char_of r]
      else if r < 2048 then [char_of (192 + r div 64), char_of (128 + r mod 64)]
      else if r < 65536 then
        [char_of (224 + r div 4096), char_of (128 + r div 64 mod 64), char_of (128 + r mod 64)]
      else [char_of (240 + r div 262144), char_of (128 + r div 4096 mod 64),
            char_of (128 + r div 64 mod 64), char_of (128 + r mod 64)])"

definition ValidRune :: "nat \<Rightarrow> bool" where
  "ValidRune r = (r < 55296 \<or> (57343 < r \<and> r \<le> 1114111))"

text \<open>The number of bytes of the UTF-8 sequence that a byte starts.\<close>

fun rune_len :: "char \<Rightarrow> nat" where
  "rune_len (Char b0 b1 b2 b3 b4 b5 b6 b7) =
     (if \<not> b7 then 1 else if b6 \<and> \<not> b5 then 2 else if b6 \<and> b5 \<and> \<not> b4 then 3
      else if b6 \<and> b5 \<and> b4 \<and> \<not> b3 then 4 else 1)"

definition escape_num :: "nat \<Rightarrow> nat \<Rightarrow> bool \<Rightarrow> string \<Rightarrow> (string \<times> string) option" where
  "escape_num base n multibyte s =
     (if length s < n then None
      else (case digits_base base 0 (take n s) of
              None \<Rightarrow> None
            | Some v \<Rightarrow>
                (if multibyte then (if ValidRune v then Some (utf8_encode v, drop n s) else None)
                 else (if v > 255 then None else Some ([char_of v], drop n s)))))"

definition UnquoteChar :: "string \<Rightarrow> char \<Rightarrow> (string \<times> string) option" where
  "UnquoteChar s quote =
     (case s of
        [] \<Rightarrow> None
      | c # tail \<Rightarrow>
          (if c = quote \<and> (quote = CHR 0x27 \<or> quote = CHR 0x22) then None
           else if c \<noteq> CHR 0x5C then Some (take (rune_len c) s, drop (rune_len c) s)
           else (case tail of
                   [] \<Rightarrow> None
                 | e # rest \<Rightarrow>
                     (if e = CHR ''a'' then Some ([CHR 0x07], rest)
                      else if e = CHR ''b'' then Some ([CHR 0x08], rest)
                      else if e = CHR ''f'' then Some ([CHR 0x0C], rest)
                      else if e = CHR ''n'' then Some ([CHR 0x0A], rest)
                      else if e = CHR ''r'' then Some ([CHR 0x0D], rest)
                      else if e = CHR ''t'' then Some ([CHR 0x09], rest)
                      else if e = CHR ''v'' then Some ([CHR 0x0B], rest)
                      else if e = CHR ''x'' then escape_num 16 2 False rest
                      else if e = CHR ''u'' then escape_num 16 4 True rest
                      else if e = CHR ''U'' then escape_num 16 8 True rest
                      else if hex_val e \<noteq> None \<and> the (hex_val e) < 8 then
                        escape_num 8 3 False tail
                      else if e = CHR 0x5C then Some ([CHR 0x5C], rest)
                      else if e = CHR 0x27 \<or> e = CHR 0x22 then
                        (if e \<noteq> quote then None else Some ([e], rest))
                      else None))))"

lemma rune_len_pos: "0 < rune_len c"
  by (cases c) simp

lemma UnquoteChar_shorter: "UnquoteChar s q = Some (r, rest) \<Longrightarrow> length rest < length s"
  using rune_len_pos [of "hd s"]
  by (auto simp: UnquoteChar_def escape_num_def split: list.splits if_splits option.splits)

function unquote_loop :: "char \<Rightarrow> string \<Rightarrow> string option" where
  "unquote_loop quote s =
     (if s \<noteq> [] \<and> hd s \<noteq> quote then
        (if hd s = CHR 0x0A then None
         else (case UnquoteChar s quote of
                 None \<Rightarrow> None
               | Some (r, rest) \<Rightarrow>
                   (case unquote_loop quote rest of
                      None \<Rightarrow> None
                    | Some out \<Rightarrow> Some (r @ out))))
      else if s = [quote] then Some []
      else None)"
  by pat_completeness auto
termination
  by (relation "measure (\<lambda>(q, s). length s)") (auto dest: UnquoteChar_shorter)

declare unquote_loop.simps [simp del]

definition Unquote :: "string \<Rightarrow> string option" where
  "Unquote s =
     (if length s < 2 then None
      else if hd s = CHR 0x60 then
        (if last s = CHR 0x60 \<and> CHR 0x60 \<notin> set (butlast (tl s))
         then Some (filter (\<lambda>c. c \<noteq> CHR 0x0D) (butlast (tl s))) else None)
      else if hd s = CHR 0x22 then unquote_loop (CHR 0x22) (tl s)
      else if hd s = CHR 0x27 then
        (case UnquoteChar (tl s) (CHR 0x27) of
           None \<Rightarrow> None
         | Some (r, rest) \<Rightarrow> (if rest = [CHR 0x27] then Some r else None))
      else None)"

subsection \<open>The Type Reifier: asType\<close>

text \<open>
  \<^verbatim>\<open>
  var atomTypes = map[string]reflect.Type{
      "int":    reflect.TypeOf(int(0)),
      "uint":   reflect.TypeOf(uint(0)),
      "float":  reflect.TypeOf(float64(0)),
      "bool":   reflect.TypeOf(false),
      "string": reflect.TypeOf(""),
  }

  func asType(typ string) reflect.Type {
      if t, ok := atomTypes[typ]; ok {
          return t
      }
      if strings.HasPrefix(typ, "[]") {
          return reflect.SliceOf(asType(typ[2:]))
      }
      if typ[0] == '[' {
          i, j := 0, strings.IndexRune(typ, ']')
          count, _ := strconv.Atoi(typ[i+1 : j])
          elem := typ[j+1:]
          return reflect.ArrayOf(count, asType(elem))
      }
      if strings.HasPrefix(typ, "map") {
          i, j := strings.IndexRune(typ, '['), strings.IndexRune(typ, ']')
          key := typ[i+1 : j]
          elem := typ[j+1:]
          return reflect.MapOf(asType(key), asType(elem))
      }
      panic(fmt.Sprintf("unknown type %q", typ))
  }
  \<close>
  \<^verbatim>\<open>typ[0]\<close> panics on the empty string, a slice expression panics when its bounds are
  out of order, \<^verbatim>\<open>reflect.ArrayOf\<close> panics on a negative length and
  \<^verbatim>\<open>reflect.MapOf\<close> panics on a key type that is not comparable. The arguments of a
  call are evaluated before the call, from left to right. The limits of the address space
  on the size of an array type are not modelled.
\<close>

definition atomTypes :: "string \<Rightarrow> ty option" where
  "atomTypes = [''int'' \<mapsto> TInt, ''uint'' \<mapsto> TUint, ''float'' \<mapsto> TFloat,
                ''bool'' \<mapsto> TBool, ''string'' \<mapsto> TString]"

fun comparable :: "ty \<Rightarrow> bool" where
  "comparable (TSlice _) = False"
| "comparable (TMap _ _) = False"
| "comparable (TArray _ t) = comparable t"
| "comparable (TStruct fs) = list_all (\<lambda>(n, t). comparable t) fs"
| "comparable _ = True"

lemma IndexRune_bounds: "IndexRune s c < int (length s)" "-1 \<le> IndexRune s c"
  by (induction s) (auto simp: Let_def)

lemma substr_len:
  "substr s lo hi = Inr r \<Longrightarrow>
     length r = nat (hi - lo) \<and> 0 \<le> lo \<and> lo \<le> hi \<and> hi \<le> int (length s)"
  by (auto simp: substr_def split: if_splits)

function asType :: "string \<Rightarrow> panic + ty" where
  "asType typ =
     (case atomTypes typ of
        Some t \<Rightarrow> Inr t
      | None \<Rightarrow>
          (if HasPrefix typ ''[]'' then
             (case substr typ 2 (int (length typ)) of
                Inl e \<Rightarrow> Inl e
              | Inr rest \<Rightarrow> (case asType rest of Inl e \<Rightarrow> Inl e | Inr t \<Rightarrow> Inr (TSlice t)))
           else if typ = [] then Inl IndexOutOfRange
           else if typ ! 0 = CHR ''['' then
             (let i = 0; j = IndexRune typ (CHR '']'') in
                (case substr typ (i + 1) j of
                   Inl e \<Rightarrow> Inl e
                 | Inr digits \<Rightarrow>
                     (let count = Atoi digits in
                        (case substr typ (j + 1) (int (length typ)) of
                           Inl e \<Rightarrow> Inl e
                         | Inr elem \<Rightarrow>
                             (case asType elem of
                                Inl e \<Rightarrow> Inl e
                              | Inr t \<Rightarrow> (if count < 0 then Inl ReflectNegativeLen
                                         else Inr (TArray (nat count) t)))))))
           else if HasPrefix typ ''map'' then
             (let i = IndexRune typ (CHR ''[''); j = IndexRune typ (CHR '']'') in
                (case substr typ (i + 1) j of
                   Inl e \<Rightarrow> Inl e
                 | Inr key \<Rightarrow>
                     (case substr typ (j + 1) (int (length typ)) of
                        Inl e \<Rightarrow> Inl e
                      | Inr elem \<Rightarrow>
                          (case asType key of
                             Inl e \<Rightarrow> Inl e
                           | Inr k \<Rightarrow>
                               (case asType elem of
                                  Inl e \<Rightarrow> Inl e
                                | Inr t \<Rightarrow> (if comparable k then Inr (TMap k t)
                                           else Inl ReflectMapKey))))))
           else Inl (UnknownType typ)))"
  by pat_completeness auto
termination asType
proof (relation "measure length", goal_cases)
  case 1
  show ?case by simp
next
  case (2 s rest)
  then show ?case by (auto dest!: substr_len)
next
  case (3 s i j digits count elem)
  then show ?case by (auto dest!: substr_len)
next
  case (4 s i j key elem)
  have "-1 \<le> i" using 4 IndexRune_bounds(2) by simp
  moreover have "j < int (length s)" using 4 IndexRune_bounds(1) by simp
  ultimately show ?case using 4 by (auto dest!: substr_len)
next
  case (5 s i j key elem k)
  have "-1 \<le> i" using 5 IndexRune_bounds(2) by simp
  then show ?case using 5 by (auto dest!: substr_len)
qed

declare asType.simps [simp del]

subsection \<open>Package reflect\<close>

text \<open>
  A \<^verbatim>\<open>reflect.Value\<close> is either the zero Value (\<open>Invalid\<close>, what
  \<^verbatim>\<open>FieldByName\<close> returns for a name that is no field) or a value with its flag
  \<^verbatim>\<open>flagRO\<close>, which is set on a field that is not exported and on everything reached
  through such a field. The setters panic on the zero Value, then on a read-only value,
  then on a value of another kind. A setter returns the new content of the variable the
  Value refers to; the caller stores it where the Value came from.
\<close>

datatype rvalue = Invalid | Value bool val

definition Type :: "rvalue \<Rightarrow> panic + ty" where
  "Type v = (case v of Invalid \<Rightarrow> Inl ReflectZeroValue | Value ro d \<Rightarrow> Inr (typeOf d))"

text \<open>
  \<^verbatim>\<open>v.Set(x)\<close>: \<open>x\<close> must be assignable to the type of \<open>v\<close>. Every value is
  assignable to the empty interface, which then holds it as its dynamic value.
\<close>

definition Set :: "rvalue \<Rightarrow> val \<Rightarrow> panic + val" where
  "Set v x =
     (case v of
        Invalid \<Rightarrow> Inl ReflectZeroValue
      | Value ro d \<Rightarrow>
          (if ro then Inl ReflectUnexported
           else if typeOf d = TInterface then
             (case x of VIface y \<Rightarrow> Inr x | _ \<Rightarrow> Inr (VIface (Some x)))
           else if typeOf x = typeOf d then Inr x
           else Inl ReflectAssign))"

definition SetBool :: "rvalue \<Rightarrow> bool \<Rightarrow> panic + val" where
  "SetBool v x =
     (case v of
        Invalid \<Rightarrow> Inl ReflectZeroValue
      | Value ro d \<Rightarrow>
          (if ro then Inl ReflectUnexported
           else (case d of VBool _ \<Rightarrow> Inr (VBool x) | _ \<Rightarrow> Inl (ReflectKind ''SetBool''))))"

definition SetString :: "rvalue \<Rightarrow> string \<Rightarrow> panic + val" where
  "SetString v x =
     (case v of
        Invalid \<Rightarrow> Inl ReflectZeroValue
      | Value ro d \<Rightarrow>
          (if ro then Inl ReflectUnexported
           else (case d of
                   VString _ \<Rightarrow> Inr (VString x)
                 | _ \<Rightarrow> Inl (ReflectKind ''SetString''))))"

definition SetInt :: "rvalue \<Rightarrow> int \<Rightarrow> panic + val" where
  "SetInt v x =
     (case v of
        Invalid \<Rightarrow> Inl ReflectZeroValue
      | Value ro d \<Rightarrow>
          (if ro then Inl ReflectUnexported
           else (case d of VInt _ \<Rightarrow> Inr (VInt x) | _ \<Rightarrow> Inl (ReflectKind ''SetInt''))))"

definition SetFloat :: "rvalue \<Rightarrow> string \<Rightarrow> panic + val" where
  "SetFloat v x =
     (case v of
        Invalid \<Rightarrow> Inl ReflectZeroValue
      | Value ro d \<Rightarrow>
          (if ro then Inl ReflectUnexported
           else (case d of
                   VFloat _ \<Rightarrow> Inr (VFloat x)
                 | _ \<Rightarrow> Inl (ReflectKind ''SetFloat''))))"

text \<open>\<^verbatim>\<open>v.Index(i)\<close> on an array with the elements \<open>vs\<close>.\<close>

definition Index :: "bool \<Rightarrow> val list \<Rightarrow> nat \<Rightarrow> panic + rvalue" where
  "Index ro vs i = (if i < length vs then Inr (Value ro (vs ! i)) else Inl ReflectArrayIndex)"

text \<open>
  \<^verbatim>\<open>v.FieldByName(name)\<close> on a struct with the fields \<open>fs\<close>. A field is exported when
  its name starts with an upper-case letter (ASCII in the model).
\<close>

definition exported :: "string \<Rightarrow> bool" where
  "exported name = (name \<noteq> [] \<and> hd name \<in> set ''ABCDEFGHIJKLMNOPQRSTUVWXYZ'')"

definition FieldByName :: "bool \<Rightarrow> (string \<times> val) list \<Rightarrow> string \<Rightarrow> rvalue" where
  "FieldByName ro fs name =
     (case map_of fs name of
        None \<Rightarrow> Invalid
      | Some d \<Rightarrow> Value (ro \<or> \<not> exported name) d)"

text \<open>The store through the Value of a field: the field of that name gets the content.\<close>

fun set_field :: "string \<Rightarrow> val \<Rightarrow> (string \<times> val) list \<Rightarrow> (string \<times> val) list" where
  "set_field name x [] = []"
| "set_field name x (f # fs) =
     (if fst f = name then (name, x) # fs else f # set_field name x fs)"

text \<open>
  \<^verbatim>\<open>v.SetMapIndex(key, value)\<close> on a map that is not nil: the entry of an equal key is
  overwritten, another key is added. A key whose dynamic value cannot be hashed (a slice
  or a map inside an interface) makes the run time panic.
\<close>

fun hashable :: "val \<Rightarrow> bool" where
  "hashable (VSlice _ _) = False"
| "hashable (VMap _ _ _) = False"
| "hashable (VArray _ vs) = list_all hashable vs"
| "hashable (VStruct fs) = list_all (\<lambda>f. hashable (snd f)) fs"
| "hashable (VIface None) = True"
| "hashable (VIface (Some v)) = hashable v"
| "hashable _ = True"

fun map_store :: "val \<Rightarrow> val \<Rightarrow> (val \<times> val) list \<Rightarrow> (val \<times> val) list" where
  "map_store k x [] = [(k, x)]"
| "map_store k x (p # ps) =
     (if fst p = k then (k, x) # ps else p # map_store k x ps)"

definition SetMapIndex :: "(val \<times> val) list \<Rightarrow> val \<Rightarrow> val \<Rightarrow> panic + (val \<times> val) list" where
  "SetMapIndex m k x = (if hashable k then Inr (map_store k x m) else Inl Unhashable)"

subsection \<open>The Structural Reader: consume, endList, read and readList\<close>

text \<open>
  \<^verbatim>\<open>
  func (lex *lexer) consume(want rune) {
      if lex.token != want {
          panic(fmt.Sprintf("got %q, want %q", lex.text(), want))
      }
      lex.next()
  }

  func endList(lex *lexer) bool {
      switch lex.token {
      case scanner.EOF:
          panic("end of file")
      case ')':
          return true
      }
      return false
  }
  \<close>
\<close>

definition consume :: "lexer \<Rightarrow> char \<Rightarrow> panic + lexer" where
  "consume lx want =
     (if lex_token lx \<noteq> Some (TokPunct want) then Inl (GotWant (lex_text lx) want)
      else Inr (lex_next lx))"

definition endList :: "lexer \<Rightarrow> panic + bool" where
  "endList lx =
     (case lex_token lx of
        None \<Rightarrow> Inl EndOfFile
      | Some t \<Rightarrow> (if t = TokPunct (CHR '')'') then Inr True else Inr False))"

text \<open>
  \<^verbatim>\<open>
  func read(lex *lexer, v reflect.Value) {
      switch lex.token {
      case scanner.Ident:
          if lex.text() == "nil" {
              v.Set(reflect.Zero(v.Type()))
              lex.next()
              return
          } else if lex.text() == "t" {
              v.SetBool(true)
              lex.next()
              return
          }
      case scanner.String:
          s, _ := strconv.Unquote(lex.text())
          v.SetString(s)
          lex.next()
          return
      case scanner.Int:
          i, _ := strconv.Atoi(lex.text())
          v.SetInt(int64(i))
          lex.next()
          return
      case scanner.Float:
          f, _ := strconv.ParseFloat(lex.text(), 64)
          v.SetFloat(f)
          lex.next()
          return
      case '(':
          lex.next()
          readList(lex, v)
          lex.next()
          return
      }
      panic(fmt.Sprintf("unexpected token %q", lex.text()))
  }

  func readList(lex *lexer, v reflect.Value) {
      switch v.Kind() {
      case reflect.Array:
          for i := 0; !endList(lex); i++ {
              read(lex, v.Index(i))
          }
      case reflect.Slice:
          for !endList(lex) {
              item := reflect.New(v.Type().Elem()).Elem()
              read(lex, item)
              v.Set(reflect.Append(v, item))
          }
      case reflect.Struct:
          for !endList(lex) {
              lex.consume('(')
              if lex.token != scanner.Ident {
                  panic(fmt.Sprintf("got token %q, want field name", lex.text()))
              }
              name := lex.text()
              lex.next()
              read(lex, v.FieldByName(name))
              lex.consume(')')
          }
      case reflect.Map:
          v.Set(reflect.MakeMap(v.Type()))
          for !endList(lex) {
              lex.consume('(')
              key := reflect.New(v.Type().Key()).Elem()
              read(lex, key)
              value := reflect.New(v.Type().Elem()).Elem()
              read(lex, value)
              v.SetMapIndex(key, value)
              lex.consume(')')
          }
      case reflect.Interface:
          typStr, _ := strconv.Unquote(lex.text())
          typ := asType(typStr)
          lex.next()
          value := reflect.New(typ).Elem()
          read(lex, value)
          v.Set(value)
      default:
          panic(fmt.Sprintf("cannot decode list into %v", v.Type()))
      }
  }
  \<close>
  Each function returns the new content of its destination and the lexer after it. The
  loops carry the part of \<open>v\<close> they work on: its read-only flag and its elements,
  fields or entries. On the zero Value \<^verbatim>\<open>v.Kind()\<close> is \<^verbatim>\<open>Invalid\<close>, so the default
  case is taken, where \<^verbatim>\<open>v.Type()\<close> panics. \<^verbatim>\<open>reflect.Append\<close> panics on a
  read-only slice.
\<close>

function read :: "lexer \<Rightarrow> rvalue \<Rightarrow> panic + (val \<times> lexer)"
  and readList :: "lexer \<Rightarrow> rvalue \<Rightarrow> panic + (val \<times> lexer)"
  and readArray :: "lexer \<Rightarrow> bool \<Rightarrow> val list \<Rightarrow> nat \<Rightarrow> panic + (val list \<times> lexer)"
  and readSlice :: "lexer \<Rightarrow> bool \<Rightarrow> ty \<Rightarrow> val list \<Rightarrow> panic + (val list \<times> lexer)"
  and readStruct ::
    "lexer \<Rightarrow> bool \<Rightarrow> (string \<times> val) list \<Rightarrow> panic + ((string \<times> val) list \<times> lexer)"
  and readMap ::
    "lexer \<Rightarrow> ty \<Rightarrow> ty \<Rightarrow> (val \<times> val) list \<Rightarrow> panic + ((val \<times> val) list \<times> lexer)"
where
  "read lx v =
     (case lex_token lx of
        Some (TokIdent s) \<Rightarrow>
          (if s = ''nil'' then
             (case Type v of
                Inl e \<Rightarrow> Inl e
              | Inr t \<Rightarrow>
                  (case Set v (zero t) of Inl e \<Rightarrow> Inl e | Inr d \<Rightarrow> Inr (d, lex_next lx)))
           else if s = ''t'' then
             (case SetBool v True of Inl e \<Rightarrow> Inl e | Inr d \<Rightarrow> Inr (d, lex_next lx))
           else Inl (UnexpectedToken (lex_text lx)))
      | Some (TokString s) \<Rightarrow>
          (case SetString v (case Unquote s of None \<Rightarrow> [] | Some u \<Rightarrow> u) of
             Inl e \<Rightarrow> Inl e
           | Inr d \<Rightarrow> Inr (d, lex_next lx))
      | Some (TokInt s) \<Rightarrow>
          (case SetInt v (Atoi s) of Inl e \<Rightarrow> Inl e | Inr d \<Rightarrow> Inr (d, lex_next lx))
      | Some (TokFloat s) \<Rightarrow>
          (case SetFloat v s of Inl e \<Rightarrow> Inl e | Inr d \<Rightarrow> Inr (d, lex_next lx))
      | Some (TokPunct c) \<Rightarrow>
          (if c = CHR ''('' then
             (case readList (lex_next lx) v of
                Inl e \<Rightarrow> Inl e
              | Inr (d, lx') \<Rightarrow> Inr (d, lex_next lx'))
           else Inl (UnexpectedToken (lex_text lx)))
      | _ \<Rightarrow> Inl (UnexpectedToken (lex_text lx)))"
| "readList lx v =
     (case v of
        Invalid \<Rightarrow> Inl ReflectZeroValue
      | Value ro d \<Rightarrow>
          (case d of
             VArray t vs \<Rightarrow>
               (case readArray lx ro vs 0 of
                  Inl e \<Rightarrow> Inl e
                | Inr (vs', lx') \<Rightarrow> Inr (VArray t vs', lx'))
           | VSlice t vs \<Rightarrow>
               (case readSlice lx ro t vs of
                  Inl e \<Rightarrow> Inl e
                | Inr (vs', lx') \<Rightarrow> Inr (VSlice t vs', lx'))
           | VStruct fs \<Rightarrow>
               (case readStruct lx ro fs of
                  Inl e \<Rightarrow> Inl e
                | Inr (fs', lx') \<Rightarrow> Inr (VStruct fs', lx'))
           | VMap kt et m \<Rightarrow>
               (case Set v (VMap kt et (Some [])) of
                  Inl e \<Rightarrow> Inl e
                | Inr _ \<Rightarrow>
                    (case readMap lx kt et [] of
                       Inl e \<Rightarrow> Inl e
                     | Inr (m', lx') \<Rightarrow> Inr (VMap kt et (Some m'), lx')))
           | VIface _ \<Rightarrow>
               (let typStr = (case Unquote (lex_text lx) of None \<Rightarrow> [] | Some u \<Rightarrow> u) in
                  (case asType typStr of
                     Inl e \<Rightarrow> Inl e
                   | Inr typ \<Rightarrow>
                       (case read (lex_next lx) (Value False (zero typ)) of
                          Inl e \<Rightarrow> Inl e
                        | Inr (x, lx') \<Rightarrow>
                            (case Set v x of Inl e \<Rightarrow> Inl e | Inr d' \<Rightarrow> Inr (d', lx')))))
           | _ \<Rightarrow> Inl (CannotDecodeList (typeOf d))))"
| "readArray lx ro vs i =
     (case endList lx of
        Inl e \<Rightarrow> Inl e
      | Inr done \<Rightarrow>
          (if done then Inr (vs, lx)
           else (case Index ro vs i of
                   Inl e \<Rightarrow> Inl e
                 | Inr elem \<Rightarrow>
                     (case read lx elem of
                        Inl e \<Rightarrow> Inl e
                      | Inr (x, lx') \<Rightarrow> readArray lx' ro (vs[i := x]) (i + 1)))))"
| "readSlice lx ro t vs =
     (case endList lx of
        Inl e \<Rightarrow> Inl e
      | Inr done \<Rightarrow>
          (if done then Inr (vs, lx)
           else (case read lx (Value False (zero t)) of
                   Inl e \<Rightarrow> Inl e
                 | Inr (item, lx') \<Rightarrow>
                     (if ro then Inl ReflectUnexported
                      else readSlice lx' ro t (vs @ [item])))))"
| "readStruct lx ro fs =
     (case endList lx of
        Inl e \<Rightarrow> Inl e
      | Inr done \<Rightarrow>
          (if done then Inr (fs, lx)
           else (case consume lx (CHR ''('') of
                   Inl e \<Rightarrow> Inl e
                 | Inr lx1 \<Rightarrow>
                     (case lex_token lx1 of
                        Some (TokIdent name) \<Rightarrow>
                          (case read (lex_next lx1) (FieldByName ro fs name) of
                             Inl e \<Rightarrow> Inl e
                           | Inr (x, lx2) \<Rightarrow>
                               (case consume lx2 (CHR '')'') of
                                  Inl e \<Rightarrow> Inl e
                                | Inr lx3 \<Rightarrow> readStruct lx3 ro (set_field name x fs)))
                      | _ \<Rightarrow> Inl (WantFieldName (lex_text lx1))))))"
| "readMap lx kt et m =
     (case endList lx of
        Inl e \<Rightarrow> Inl e
      | Inr done \<Rightarrow>
          (if done then Inr (m, lx)
           else (case consume lx (CHR ''('') of
                   Inl e \<Rightarrow> Inl e
                 | Inr lx1 \<Rightarrow>
                     (case read lx1 (Value False (zero kt)) of
                        Inl e \<Rightarrow> Inl e
                      | Inr (k, lx2) \<Rightarrow>
                          (case read lx2 (Value False (zero et)) of
                             Inl e \<Rightarrow> Inl e
                           | Inr (x, lx3) \<Rightarrow>
                               (case SetMapIndex m k x of
                                  Inl e \<Rightarrow> Inl e
                                | Inr m' \<Rightarrow>
                                    (case consume lx3 (CHR '')'') of
                                       Inl e \<Rightarrow> Inl e
                                     | Inr lx4 \<Rightarrow> readMap lx4 kt et m')))))))"
  by pat_completeness auto

text \<open>
  Termination: every successful \<open>read\<close> leaves a strictly shorter lexer. This is shown
  on the domain of the functions first, since the loops call themselves on the lexer that
  \<open>read\<close> returns.
\<close>

lemma lex_next_le: "length (lex_next lx) \<le> length lx"
  by (simp add: lex_next_def split: list.splits)

lemma lex_next_less: "lex_token lx = Some t \<Longrightarrow> length (lex_next lx) < length lx"
  by (simp add: lex_next_def lex_token_def split: list.splits)

lemma consume_less: "consume lx c = Inr lx' \<Longrightarrow> length lx' < length lx"
  by (auto simp: consume_def lex_next_def lex_token_def split: list.splits if_splits)

lemma shorter_dom:
  "read_readList_readArray_readSlice_readStruct_readMap_dom (Inl (Inl (lx, v))) \<Longrightarrow>
     read lx v = Inr (d, lx') \<Longrightarrow> length lx' < length lx"
  "read_readList_readArray_readSlice_readStruct_readMap_dom (Inl (Inr (Inl (lx, v)))) \<Longrightarrow>
     readList lx v = Inr (d, lx') \<Longrightarrow> length lx' \<le> length lx"
  "read_readList_readArray_readSlice_readStruct_readMap_dom (Inl (Inr (Inr (lx, ro, vs, i)))) \<Longrightarrow>
     readArray lx ro vs i = Inr (vs', lx') \<Longrightarrow> length lx' \<le> length lx"
  "read_readList_readArray_readSlice_readStruct_readMap_dom (Inr (Inl (lx, ro, t, vs))) \<Longrightarrow>
     readSlice lx ro t vs = Inr (vs', lx') \<Longrightarrow> length lx' \<le> length lx"
  "read_readList_readArray_readSlice_readStruct_readMap_dom (Inr (Inr (Inl (lx, ro, fs)))) \<Longrightarrow>
     readStruct lx ro fs = Inr (fs', lx') \<Longrightarrow> length lx' \<le> length lx"
  "read_readList_readArray_readSlice_readStruct_readMap_dom (Inr (Inr (Inr (lx, kt, et, m)))) \<Longrightarrow>
     readMap lx kt et m = Inr (m', lx') \<Longrightarrow> length lx' \<le> length lx"
proof (induct lx v and lx v and lx ro vs i and lx ro t vs and lx ro fs and lx kt et m
       arbitrary: d lx' and d lx' and vs' lx' and vs' lx' and fs' lx' and m' lx'
       rule: read_readList_readArray_readSlice_readStruct_readMap.pinduct)
  case (1 lx v)
  show ?case
    using "1.prems" "1.hyps"(2) lex_next_less [of lx] lex_next_le
    apply (simp add: read.psimps [OF "1.hyps"(1)])
    apply (auto split: option.splits token.splits if_splits sum.splits prod.splits)
    apply (meson le_less_trans lex_next_le less_trans)
    done
next
  case (2 lx v)
  show ?case
    using "2.prems" "2.hyps"(2-) lex_next_le [of lx]
    apply (simp add: readList.psimps [OF "2.hyps"(1)] Let_def)
    apply (auto split: rvalue.splits val.splits sum.splits prod.splits)
    apply (meson le_trans less_imp_le)
    done
next
  case (3 lx ro vs i)
  show ?case
    using "3.prems" "3.hyps"(2-)
    apply (simp add: readArray.psimps [OF "3.hyps"(1)])
    apply (auto split: sum.splits prod.splits if_splits)
    apply (meson le_trans less_imp_le)
    done
next
  case (4 lx ro t vs)
  show ?case
    using "4.prems" "4.hyps"(2-)
    apply (simp add: readSlice.psimps [OF "4.hyps"(1)])
    apply (auto split: sum.splits prod.splits if_splits)
    apply (meson le_trans less_imp_le)
    done
next
  case (5 lx ro fs)
  note dom = "5.hyps"(1)
  show ?case
  proof (cases "endList lx")
    case (Inl e)
    with "5.prems" show ?thesis by (simp add: readStruct.psimps [OF dom])
  next
    case (Inr b)
    show ?thesis
    proof (cases b)
      case True
      with Inr "5.prems" show ?thesis by (simp add: readStruct.psimps [OF dom])
    next
      case False
      from "5.prems" Inr False obtain lx1 name x lx2 lx3 where
        c1: "consume lx (CHR ''('') = Inr lx1" and
        tk: "lex_token lx1 = Some (TokIdent name)" and
        r1: "read (lex_next lx1) (FieldByName ro fs name) = Inr (x, lx2)" and
        c2: "consume lx2 (CHR '')'') = Inr lx3" and
        rc: "readStruct lx3 ro (set_field name x fs) = Inr (fs', lx')"
        by (auto simp: readStruct.psimps [OF dom]
                 split: sum.splits prod.splits option.splits token.splits)
      have "length lx1 < length lx" using consume_less [OF c1] .
      moreover have "length (lex_next lx1) \<le> length lx1" by (rule lex_next_le)
      moreover have "length lx2 < length (lex_next lx1)"
        using "5.hyps"(2) Inr False c1 tk r1 by blast
      moreover have "length lx3 < length lx2" using consume_less [OF c2] .
      moreover have "length lx' \<le> length lx3"
        using "5.hyps"(3) Inr False c1 tk r1 c2 rc by blast
      ultimately show ?thesis by linarith
    qed
  qed
next
  case (6 lx kt et m)
  note dom = "6.hyps"(1)
  show ?case
  proof (cases "endList lx")
    case (Inl e)
    with "6.prems" show ?thesis by (simp add: readMap.psimps [OF dom])
  next
    case (Inr b)
    show ?thesis
    proof (cases b)
      case True
      with Inr "6.prems" show ?thesis by (simp add: readMap.psimps [OF dom])
    next
      case False
      from "6.prems" Inr False obtain lx1 k lx2 x lx3 m1 lx4 where
        c1: "consume lx (CHR ''('') = Inr lx1" and
        r1: "read lx1 (Value False (zero kt)) = Inr (k, lx2)" and
        r2: "read lx2 (Value False (zero et)) = Inr (x, lx3)" and
        st: "SetMapIndex m k x = Inr m1" and
        c2: "consume lx3 (CHR '')'') = Inr lx4" and
        rc: "readMap lx4 kt et m1 = Inr (m', lx')"
        by (auto simp: readMap.psimps [OF dom] split: sum.splits prod.splits)
      have "length lx1 < length lx" using consume_less [OF c1] .
      moreover have "length lx2 < length lx1"
        using "6.hyps"(2) Inr False c1 r1 by blast
      moreover have "length lx3 < length lx2"
        using "6.hyps"(3) Inr False c1 r1 r2 by blast
      moreover have "length lx4 < length lx3" using consume_less [OF c2] .
      moreover have "length lx' \<le> length lx4"
        using "6.hyps"(4) Inr False c1 r1 r2 st c2 rc by blast
      ultimately show ?thesis by linarith
    qed
  qed
qed

termination read
  apply (relation "inv_image (less_than <*lex*> less_than)
     (\<lambda>x. case x of
        Inl (Inl (lx, v)) \<Rightarrow> (length lx, 0::nat)
      | Inl (Inr (Inl (lx, v))) \<Rightarrow> (length lx, 2)
      | Inl (Inr (Inr (lx, ro, vs, i))) \<Rightarrow> (length lx, 1)
      | Inr (Inl (lx, ro, t, vs)) \<Rightarrow> (length lx, 1)
      | Inr (Inr (Inl (lx, ro, fs))) \<Rightarrow> (length lx, 1)
      | Inr (Inr (Inr (lx, kt, et, m))) \<Rightarrow> (length lx, 1))")
  apply simp_all
  subgoal by (intro wf_inv_image wf_lex_prod wf_less_than)
  subgoal by (rule lex_next_less)
  subgoal for lx using lex_next_le [of lx] by linarith
  subgoal for lx ro vs i b ba bb x y using shorter_dom(1) [of lx ba x y] by auto
  subgoal for lx ro t b ba x y using shorter_dom(1) [of lx "Value False (zero t)" x y] by auto
  subgoal for lx b ba using lex_next_le [of ba] consume_less [of lx "CHR ''(''" ba] by auto
  subgoal for lx ro fs b ba x2 x1 bb x y bc
    using shorter_dom(1) [of "lex_next ba" "FieldByName ro fs x1" x y]
      consume_less [of lx "CHR ''(''" ba] consume_less [of y "CHR '')''" bc]
      lex_next_le [of ba] by auto
  subgoal for lx b ba using consume_less [of lx "CHR ''(''" ba] by auto
  subgoal for lx kt b ba bb x y
    using shorter_dom(1) [of ba "Value False (zero kt)" x y]
      consume_less [of lx "CHR ''(''" ba] by auto
  subgoal for lx kt et m b ba bb x y bc xa ya bd be
    using shorter_dom(1) [of ba "Value False (zero kt)" x y]
      shorter_dom(1) [of y "Value False (zero et)" xa ya]
      consume_less [of lx "CHR ''(''" ba] consume_less [of ya "CHR '')''" be] by auto
  done

declare read.simps [simp del] readList.simps [simp del] readArray.simps [simp del]
  readSlice.simps [simp del] readStruct.simps [simp del] readMap.simps [simp del]

subsection \<open>The public API: Unmarshal\<close>

text \<open>
  \<^verbatim>\<open>
  func Unmarshal(data []byte, out interface{}) (err error) {
      lex := &lexer{scan: scanner.Scanner{Mode: scanner.GoTokens}}
      lex.scan.Init(bytes.NewReader(data))
      lex.next()
      defer func() {
          if x := recover(); x != nil {
              err = fmt.Errorf("error at %s: %v", lex.scan.Position, x)
          }
      }()
      read(lex, reflect.ValueOf(out).Elem())
      return nil
  }
  \<close>
  \<open>data\<close> is the token sequence of the input and \<open>out\<close> the content of the variable
  that the pointer passed to \<^verbatim>\<open>Unmarshal\<close> refers to. The result is the recovered panic
  (the error, without its position) or the new content of that variable. What a failed
  call has already stored is not part of the result.
\<close>

definition Unmarshal :: "lexer \<Rightarrow> val \<Rightarrow> panic + val" where
  "Unmarshal data out =
     (case read data (Value False out) of Inl e \<Rightarrow> Inl e | Inr (d, _) \<Rightarrow> Inr d)"

subsection \<open>Vocabulary of the properties\<close>

text \<open>
  \<open>decodes d c x\<close>: the tokens \<open>c\<close> are a complete encoding for a settable destination
  that holds \<open>d\<close>. Whatever follows them, \<open>read\<close> consumes exactly \<open>c\<close> and leaves
  \<open>x\<close> in the destination.
\<close>

definition decodes :: "val \<Rightarrow> token list \<Rightarrow> val \<Rightarrow> bool" where
  "decodes d c x = (\<forall>rest. read (c @ rest) (Value False d) = Inr (x, rest))"

text \<open>
  A field entry of a record is a name, the tokens of its value and the value they decode
  to. In the input it is written \<^verbatim>\<open>(name value)\<close>. It is well formed for a struct with
  the fields \<open>fs\<close> when it names an exported field and its tokens are a complete encoding
  for that field. Decoding it stores the value in the field of that name.
\<close>

definition entry_tokens :: "string \<times> token list \<times> val \<Rightarrow> token list" where
  "entry_tokens e = lparen # TokIdent (fst e) # fst (snd e) @ [rparen]"

definition entry_ok :: "(string \<times> val) list \<Rightarrow> string \<times> token list \<times> val \<Rightarrow> bool" where
  "entry_ok fs e =
     (exported (fst e) \<and>
      (case map_of fs (fst e) of
         None \<Rightarrow> False
       | Some d \<Rightarrow> decodes d (fst (snd e)) (snd (snd e))))"

definition store_entry ::
  "string \<times> token list \<times> val \<Rightarrow> (string \<times> val) list \<Rightarrow> (string \<times> val) list" where
  "store_entry e fs = set_field (fst e) (snd (snd e)) fs"

text \<open>
  The s-expressions of a token sequence. With \<open>n\<close> lists open, \<open>skip_open n ts\<close> reads
  \<open>ts\<close> up to the parenthesis that closes the outermost of them and returns what follows
  it; it returns \<open>None\<close> when the input ends before that parenthesis. So an input
  \<open>lparen # ts\<close> opens a list and ends before its closing parenthesis exactly when
  \<open>skip_open 1 ts = None\<close>. \<open>skip1\<close> skips one s-expression, an atom or a list with its
  matching parenthesis, and \<open>one_sexp g\<close> says that \<open>g\<close> is exactly one s-expression.
\<close>

fun skip_open :: "nat \<Rightarrow> token list \<Rightarrow> token list option" where
  "skip_open n [] = None"
| "skip_open n (t # ts) =
     (if t = lparen then skip_open (Suc n) ts
      else if t = rparen then (if n \<le> 1 then Some ts else skip_open (n - 1) ts)
      else skip_open n ts)"

definition skip1 :: "token list \<Rightarrow> token list option" where
  "skip1 lx =
     (case lx of
        [] \<Rightarrow> None
      | t # ts \<Rightarrow> (if t = lparen then skip_open 1 ts else if t = rparen then None else Some ts))"

definition one_sexp :: "token list \<Rightarrow> bool" where
  "one_sexp g = (skip1 g = Some [])"

text \<open>
  The types and the destinations without a dynamic slot: no interface type occurs in the
  type of the destination, at any depth. (Of a slice, a map and a pointer the element types
  are looked at; in a Go value their contents have those types.)
\<close>

fun ty_plain :: "ty \<Rightarrow> bool" where
  "ty_plain TInterface = False"
| "ty_plain (TArray n t) = ty_plain t"
| "ty_plain (TSlice t) = ty_plain t"
| "ty_plain (TStruct fs) = list_all (\<lambda>f. ty_plain (snd f)) fs"
| "ty_plain (TMap k e) = (ty_plain k \<and> ty_plain e)"
| "ty_plain (TPtr t) = ty_plain t"
| "ty_plain _ = True"

fun val_plain :: "val \<Rightarrow> bool" where
  "val_plain (VIface _) = False"
| "val_plain (VArray t vs) = (ty_plain t \<and> list_all val_plain vs)"
| "val_plain (VSlice t vs) = ty_plain t"
| "val_plain (VStruct fs) = list_all (\<lambda>f. val_plain (snd f)) fs"
| "val_plain (VMap k e m) = (ty_plain k \<and> ty_plain e)"
| "val_plain (VPtr t x) = ty_plain t"
| "val_plain _ = True"

definition rv_plain :: "rvalue \<Rightarrow> bool" where
  "rv_plain v = (case v of Invalid \<Rightarrow> True | Value ro d \<Rightarrow> val_plain d)"

section \<open>Properties of the decoder\<close>

subsection \<open>Basic facts\<close>

lemma typeOf_zero [simp]: "typeOf (zero t) = t"
  by (induction t) (auto intro!: map_idI)

lemma lex_cons [simp]:
  "lex_token (t # ts) = Some t" "lex_next (t # ts) = ts" "lex_text (t # ts) = token_text t"
  "lex_token [] = None" "lex_next [] = []" "lex_text [] = []"
  by (simp_all add: lex_token_def lex_next_def lex_text_def)

lemma endList_simps [simp]:
  "endList [] = Inl EndOfFile"
  "endList (t # ts) = Inr (t = rparen)"
  by (simp_all add: endList_def rparen_def)

lemma consume_simps [simp]:
  "consume [] c = Inl (GotWant [] c)"
  "consume (t # ts) c = (if t = TokPunct c then Inr ts else Inl (GotWant (token_text t) c))"
  by (simp_all add: consume_def)

lemma decodesD: "decodes d c x \<Longrightarrow> read (c @ rest) (Value False d) = Inr (x, rest)"
  by (simp add: decodes_def)

lemma read_rparen: "read (rparen # rest) v = Inl (UnexpectedToken '')'')"
  by (simp add: read.simps rparen_def)

lemma read_eof: "read [] v = Inl (UnexpectedToken [])"
  by (simp add: read.simps)

lemma read_lparen:
  "read (lparen # lx) v =
     (case readList lx v of Inl e \<Rightarrow> Inl e | Inr (d, lx') \<Rightarrow> Inr (d, lex_next lx'))"
  by (subst read.simps) (simp add: lparen_def)

lemma readList_kinds:
  "readList lx (Value ro (VArray t vs)) =
     (case readArray lx ro vs 0 of Inl e \<Rightarrow> Inl e | Inr (vs', lx') \<Rightarrow> Inr (VArray t vs', lx'))"
  "readList lx (Value ro (VSlice t vs)) =
     (case readSlice lx ro t vs of Inl e \<Rightarrow> Inl e | Inr (vs', lx') \<Rightarrow> Inr (VSlice t vs', lx'))"
  "readList lx (Value ro (VStruct fs)) =
     (case readStruct lx ro fs of Inl e \<Rightarrow> Inl e | Inr (fs', lx') \<Rightarrow> Inr (VStruct fs', lx'))"
  "readList lx (Value False (VMap kt et m)) =
     (case readMap lx kt et [] of
        Inl e \<Rightarrow> Inl e
      | Inr (m', lx') \<Rightarrow> Inr (VMap kt et (Some m'), lx'))"
  by (simp_all add: readList.simps [of lx] Set_def)

lemma decodes_not_end:
  assumes "decodes d c x"
  shows "endList (c @ rest) = Inr False"
proof (cases c)
  case Nil
  with decodesD [OF assms, of "[]"] show ?thesis by (simp add: read_eof)
next
  case (Cons t ts)
  with decodesD [OF assms, of "[]"] have "t \<noteq> rparen"
    by (auto simp: read_rparen)
  with Cons show ?thesis by simp
qed

lemma decodes_int: "decodes (VInt n) [TokInt s] (VInt (Atoi s))"
  by (simp add: decodes_def read.simps SetInt_def)

lemma Atoi_123: "Atoi ''1'' = 1" "Atoi ''2'' = 2" "Atoi ''3'' = 3"
  by (simp_all add: Atoi_def ParseUint10_def digit_val_def)

subsection \<open>Destinations without dynamic slots\<close>

text \<open>
  Into a destination without a dynamic slot, a successful \<open>read\<close> consumes exactly one
  s-expression, and each of the four loops consumes the elements of the open list and
  stops on the parenthesis that closes it. Struct and map entries are s-expressions too.
\<close>

lemma paren_neq [simp]: "lparen \<noteq> rparen" "rparen \<noteq> lparen"
  "TokIdent s \<noteq> lparen" "TokIdent s \<noteq> rparen" "TokString s \<noteq> lparen" "TokString s \<noteq> rparen"
  "TokInt s \<noteq> lparen" "TokInt s \<noteq> rparen" "TokFloat s \<noteq> lparen" "TokFloat s \<noteq> rparen"
  by (simp_all add: lparen_def rparen_def)

lemma skip1_simps [simp]:
  "skip1 [] = None"
  "skip1 (lparen # ts) = skip_open 1 ts"
  "skip1 (rparen # ts) = None"
  "t \<noteq> lparen \<Longrightarrow> t \<noteq> rparen \<Longrightarrow> skip1 (t # ts) = Some ts"
  by (simp_all add: skip1_def)

lemma skip_open_deeper:
  "skip_open k ts = Some r \<Longrightarrow> 1 \<le> k \<Longrightarrow> 1 \<le> n \<Longrightarrow> skip_open (k + n) ts = skip_open n r"
proof (induction ts arbitrary: k)
  case Nil
  then show ?case by simp
next
  case (Cons t ts)
  show ?case
  proof (cases "t = lparen")
    case True
    with Cons.prems Cons.IH [of "Suc k"] show ?thesis by simp
  next
    case False
    show ?thesis
    proof (cases "t = rparen")
      case tr: True
      show ?thesis
      proof (cases "k \<le> 1")
        case True
        with tr False Cons.prems show ?thesis by auto
      next
        case kf: False
        then have "skip_open (k - 1) ts = Some r" using tr False Cons.prems by simp
        from Cons.IH [OF this] kf Cons.prems(3)
        have "skip_open (k - 1 + n) ts = skip_open n r" by simp
        moreover have "k - 1 + n = k + n - 1" using kf by simp
        ultimately show ?thesis using tr False kf by simp
      qed
    next
      case fr: False
      with False Cons.prems Cons.IH [of k] show ?thesis by simp
    qed
  qed
qed

lemma skip1_in_list:
  assumes "skip1 lx = Some lx1" and "1 \<le> n"
  shows "skip_open n lx = skip_open n lx1"
proof (cases lx)
  case Nil
  with assms show ?thesis by simp
next
  case (Cons t ts)
  show ?thesis
  proof (cases "t = lparen")
    case True
    with Cons assms(1) have "skip_open 1 ts = Some lx1" by simp
    from skip_open_deeper [OF this _ assms(2)] True Cons show ?thesis by simp
  next
    case False
    with Cons assms show ?thesis by (cases "t = rparen") auto
  qed
qed

lemma skip_open_append:
  "skip_open k ts = Some r \<Longrightarrow> skip_open k (ts @ rest) = Some (r @ rest)"
  by (induction ts arbitrary: k) (auto split: if_splits)

lemma skip1_append: "skip1 g = Some r \<Longrightarrow> skip1 (g @ rest) = Some (r @ rest)"
  by (cases g) (auto simp: skip1_def skip_open_append split: if_splits)

lemma one_sexp_append: "one_sexp g \<Longrightarrow> skip1 (g @ rest) = Some rest"
  using skip1_append [of g "[]" rest] by (simp add: one_sexp_def)

lemma one_sexp_not_end: "one_sexp g \<Longrightarrow> endList (g @ rest) = Inr False"
  by (cases g) (auto simp: one_sexp_def skip1_def split: if_splits)

lemma ty_plain_typeOf: "val_plain d \<Longrightarrow> ty_plain (typeOf d)"
  by (induction d) (auto simp: list_all_iff)

lemma val_plain_zero: "ty_plain t \<Longrightarrow> val_plain (zero t)"
  by (induction t) (auto simp: list_all_iff)

lemma plain_set_field:
  "list_all (\<lambda>f. val_plain (snd f)) fs \<Longrightarrow> val_plain x \<Longrightarrow>
     list_all (\<lambda>f. val_plain (snd f)) (set_field n x fs)"
  by (induction fs) auto

lemma plain_FieldByName:
  "list_all (\<lambda>f. val_plain (snd f)) fs \<Longrightarrow> rv_plain (FieldByName ro fs name)"
  by (force simp: FieldByName_def rv_plain_def list_all_iff split: option.splits
            dest: map_of_SomeD)

lemma plain_update:
  "list_all val_plain vs \<Longrightarrow> val_plain x \<Longrightarrow> list_all val_plain (vs[i := x])"
  by (auto simp: list_all_iff dest: set_update_subset_insert [THEN subsetD])

lemma entry_exact:
  assumes "consume lx (CHR ''('') = Inr lx1" and "lex_token lx1 = Some (TokIdent n)"
    and "skip1 (lex_next lx1) = Some lx2" and "consume lx2 (CHR '')'') = Inr lx3"
  shows "skip1 lx = Some lx3"
proof -
  from assms(1) have lx: "lx = lparen # lx1"
    by (cases lx) (auto simp: lparen_def split: if_splits)
  from assms(2) obtain r where lx1: "lx1 = TokIdent n # r" by (cases lx1) auto
  from assms(4) have lx2: "lx2 = rparen # lx3"
    by (cases lx2) (auto simp: rparen_def split: if_splits)
  have "skip_open 1 r = skip_open 1 lx2"
    using skip1_in_list [of r lx2 1] assms(3) lx1 by simp
  then show ?thesis using lx lx1 lx2 by simp
qed

lemma plain_not_iface: "val_plain d \<Longrightarrow> typeOf d \<noteq> TInterface"
  by (cases d) auto

lemma Set_plain: "rv_plain v \<Longrightarrow> Set v x = Inr d \<Longrightarrow> val_plain x \<Longrightarrow> val_plain d"
  by (auto simp: Set_def rv_plain_def plain_not_iface split: rvalue.splits if_splits)

lemma Type_zero_plain: "rv_plain v \<Longrightarrow> Type v = Inr t \<Longrightarrow> val_plain (zero t)"
  by (auto simp: Type_def rv_plain_def val_plain_zero ty_plain_typeOf split: rvalue.splits)

lemma setters_plain:
  "SetBool v b = Inr d \<Longrightarrow> val_plain d"
  "SetString v s = Inr d \<Longrightarrow> val_plain d"
  "SetInt v n = Inr d \<Longrightarrow> val_plain d"
  "SetFloat v s = Inr d \<Longrightarrow> val_plain d"
  by (auto simp: SetBool_def SetString_def SetInt_def SetFloat_def
           split: rvalue.splits if_splits val.splits)

lemma loop_end:
  "endList lx = Inr True \<Longrightarrow> \<exists>rest. lx = rparen # rest \<and> skip_open 1 lx = Some rest"
  by (cases lx) auto

lemma exact:
  "rv_plain v \<Longrightarrow> read lx v = Inr (d, lx') \<Longrightarrow> val_plain d \<and> skip1 lx = Some lx'"
  "rv_plain v \<Longrightarrow> readList lx v = Inr (d, lx') \<Longrightarrow>
     val_plain d \<and> (\<exists>rest. lx' = rparen # rest \<and> skip_open 1 lx = Some rest)"
  "list_all val_plain vs \<Longrightarrow> readArray lx ro vs i = Inr (vs', lx') \<Longrightarrow>
     list_all val_plain vs' \<and> (\<exists>rest. lx' = rparen # rest \<and> skip_open 1 lx = Some rest)"
  "ty_plain t \<Longrightarrow> readSlice lx ro t vs = Inr (vs', lx') \<Longrightarrow>
     (\<exists>rest. lx' = rparen # rest \<and> skip_open 1 lx = Some rest)"
  "list_all (\<lambda>f. val_plain (snd f)) fs \<Longrightarrow> readStruct lx ro fs = Inr (fs', lx') \<Longrightarrow>
     list_all (\<lambda>f. val_plain (snd f)) fs' \<and>
     (\<exists>rest. lx' = rparen # rest \<and> skip_open 1 lx = Some rest)"
  "ty_plain kt \<Longrightarrow> ty_plain et \<Longrightarrow> readMap lx kt et m = Inr (m', lx') \<Longrightarrow>
     (\<exists>rest. lx' = rparen # rest \<and> skip_open 1 lx = Some rest)"
proof (induct lx v and lx v and lx ro vs i and lx ro t vs and lx ro fs and lx kt et m
       arbitrary: d lx' and d lx' and vs' lx' and vs' lx' and fs' lx' and m' lx'
       rule: read_readList_readArray_readSlice_readStruct_readMap.induct)
  case (1 lx v)
  from "1.prems"(2) obtain tk ts where lx: "lx = tk # ts"
    by (cases lx) (auto simp: read.simps [of "[]"])
  show ?case
  proof (cases "tk = lparen")
    case True
    with lx "1.prems"(2) obtain lx1 where
      rl: "readList ts v = Inr (d, lx1)" and l': "lx' = lex_next lx1"
      by (auto simp: read_lparen split: sum.splits)
    have "val_plain d \<and> (\<exists>rest. lx1 = rparen # rest \<and> skip_open 1 ts = Some rest)"
      using "1.hyps" [of tk "CHR ''(''" d lx1] True lx rl "1.prems"(1)
      by (simp add: lparen_def)
    then show ?thesis using l' lx True by auto
  next
    case False
    with lx "1.prems" show ?thesis
      by (auto simp: read.simps [of "tk # ts"] lparen_def rparen_def skip1_def
               split: token.splits if_splits sum.splits
               dest: setters_plain Set_plain Type_zero_plain)
  qed
next
  case (2 lx v)
  from "2.prems"(2) obtain ro d0 where v: "v = Value ro d0"
    by (cases v) (auto simp: readList.simps [of lx])
  with "2.prems"(1) have pl: "val_plain d0" by (simp add: rv_plain_def)
  show ?case
  proof (cases d0)
    case (VArray t vs)
    with v "2.prems"(2) obtain vs' where
      r: "readArray lx ro vs 0 = Inr (vs', lx')" and d: "d = VArray t vs'"
      by (auto simp: readList_kinds split: sum.splits)
    from "2.hyps"(1) [OF v VArray _ r] pl VArray d show ?thesis by simp
  next
    case (VSlice t vs)
    with v "2.prems"(2) obtain vs' where
      r: "readSlice lx ro t vs = Inr (vs', lx')" and d: "d = VSlice t vs'"
      by (auto simp: readList_kinds split: sum.splits)
    from "2.hyps"(2) [OF v VSlice _ r] pl VSlice d show ?thesis by simp
  next
    case (VStruct fs)
    with v "2.prems"(2) obtain fs' where
      r: "readStruct lx ro fs = Inr (fs', lx')" and d: "d = VStruct fs'"
      by (auto simp: readList_kinds split: sum.splits)
    from "2.hyps"(3) [OF v VStruct _ r] pl VStruct d show ?thesis by simp
  next
    case (VMap kt et m)
    with v "2.prems"(2) obtain m' b where
      s: "Set v (VMap kt et (Some [])) = Inr b" and
      r: "readMap lx kt et [] = Inr (m', lx')" and d: "d = VMap kt et (Some m')"
      by (auto simp: readList.simps [of lx] split: sum.splits)
    from "2.hyps"(4) [OF v VMap s _ _ r] pl VMap d show ?thesis by simp
  next
    case (VIface x)
    with pl show ?thesis by simp
  qed (use v "2.prems"(2) in \<open>auto simp: readList.simps [of lx]\<close>)
next
  case (3 lx ro vs i)
  show ?case
  proof (cases "endList lx")
    case (Inl e)
    with "3.prems" show ?thesis by (simp add: readArray.simps [of lx])
  next
    case (Inr b)
    show ?thesis
    proof (cases b)
      case True
      with Inr "3.prems" loop_end [of lx] show ?thesis
        by (auto simp: readArray.simps [of lx])
    next
      case False
      from "3.prems"(2) Inr False obtain elem x lx1 where
        ix: "Index ro vs i = Inr elem" and
        r1: "read lx elem = Inr (x, lx1)" and
        rc: "readArray lx1 ro (vs[i := x]) (i + 1) = Inr (vs', lx')"
        by (auto simp: readArray.simps [of lx] split: sum.splits)
      from ix "3.prems"(1) have "rv_plain elem"
        by (auto simp: Index_def rv_plain_def list_all_length split: if_splits)
      from "3.hyps"(1) [OF Inr False ix this r1]
      have x: "val_plain x" and s1: "skip1 lx = Some lx1" by simp_all
      have "list_all val_plain (vs[i := x])"
        using "3.prems"(1) x by (rule plain_update)
      from "3.hyps"(2) [OF Inr False ix r1 refl this rc]
      obtain rest where "list_all val_plain vs'" "lx' = rparen # rest"
        "skip_open 1 lx1 = Some rest" by auto
      then show ?thesis using skip1_in_list [OF s1, of 1] by simp
    qed
  qed
next
  case (4 lx ro t vs)
  show ?case
  proof (cases "endList lx")
    case (Inl e)
    with "4.prems" show ?thesis by (simp add: readSlice.simps [of lx])
  next
    case (Inr b)
    show ?thesis
    proof (cases b)
      case True
      with Inr "4.prems" loop_end [of lx] show ?thesis
        by (auto simp: readSlice.simps [of lx])
    next
      case False
      from "4.prems"(2) Inr False obtain item lx1 where
        r1: "read lx (Value False (zero t)) = Inr (item, lx1)" and nro: "\<not> ro" and
        rc: "readSlice lx1 ro t (vs @ [item]) = Inr (vs', lx')"
        by (auto simp: readSlice.simps [of lx] split: sum.splits if_splits)
      have "rv_plain (Value False (zero t))"
        using "4.prems"(1) by (simp add: rv_plain_def val_plain_zero)
      from "4.hyps"(1) [OF Inr False this r1]
      have s1: "skip1 lx = Some lx1" by simp
      from "4.hyps"(2) [OF Inr False r1 refl nro "4.prems"(1) rc]
      obtain rest where "lx' = rparen # rest" "skip_open 1 lx1 = Some rest" by auto
      then show ?thesis using skip1_in_list [OF s1, of 1] by simp
    qed
  qed
next
  case (5 lx ro fs)
  show ?case
  proof (cases "endList lx")
    case (Inl e)
    with "5.prems" show ?thesis by (simp add: readStruct.simps [of lx])
  next
    case (Inr b)
    show ?thesis
    proof (cases b)
      case True
      with Inr "5.prems" loop_end [of lx] show ?thesis
        by (auto simp: readStruct.simps [of lx])
    next
      case False
      from "5.prems"(2) Inr False obtain lx1 name x lx2 lx3 where
        c1: "consume lx (CHR ''('') = Inr lx1" and
        tk: "lex_token lx1 = Some (TokIdent name)" and
        r1: "read (lex_next lx1) (FieldByName ro fs name) = Inr (x, lx2)" and
        c2: "consume lx2 (CHR '')'') = Inr lx3" and
        rc: "readStruct lx3 ro (set_field name x fs) = Inr (fs', lx')"
        by (auto simp: readStruct.simps [of lx]
                 split: sum.splits prod.splits option.splits token.splits)
      have "rv_plain (FieldByName ro fs name)"
        using "5.prems"(1) by (rule plain_FieldByName)
      from "5.hyps"(1) [OF Inr False c1 tk refl this r1]
      have x: "val_plain x" and s1: "skip1 (lex_next lx1) = Some lx2" by simp_all
      have s: "skip1 lx = Some lx3" using c1 tk s1 c2 by (rule entry_exact)
      have "list_all (\<lambda>f. val_plain (snd f)) (set_field name x fs)"
        using "5.prems"(1) x by (rule plain_set_field)
      from "5.hyps"(2) [OF Inr False c1 tk refl r1 refl c2 this rc]
      obtain rest where "list_all (\<lambda>f. val_plain (snd f)) fs'" "lx' = rparen # rest"
        "skip_open 1 lx3 = Some rest" by auto
      then show ?thesis using skip1_in_list [OF s, of 1] by simp
    qed
  qed
next
  case (6 lx kt et m)
  show ?case
  proof (cases "endList lx")
    case (Inl e)
    with "6.prems" show ?thesis by (simp add: readMap.simps [of lx])
  next
    case (Inr b)
    show ?thesis
    proof (cases b)
      case True
      with Inr "6.prems" loop_end [of lx] show ?thesis
        by (auto simp: readMap.simps [of lx])
    next
      case False
      from "6.prems"(3) Inr False obtain lx1 k lx2 x lx3 m1 lx4 where
        c1: "consume lx (CHR ''('') = Inr lx1" and
        r1: "read lx1 (Value False (zero kt)) = Inr (k, lx2)" and
        r2: "read lx2 (Value False (zero et)) = Inr (x, lx3)" and
        st: "SetMapIndex m k x = Inr m1" and
        c2: "consume lx3 (CHR '')'') = Inr lx4" and
        rc: "readMap lx4 kt et m1 = Inr (m', lx')"
        by (auto simp: readMap.simps [of lx] split: sum.splits prod.splits)
      have pk: "rv_plain (Value False (zero kt))" and pe: "rv_plain (Value False (zero et))"
        using "6.prems"(1,2) by (simp_all add: rv_plain_def val_plain_zero)
      from "6.hyps"(1) [OF Inr False c1 pk r1]
      have s1: "skip1 lx1 = Some lx2" by simp
      from "6.hyps"(2) [OF Inr False c1 r1 refl pe r2]
      have s2: "skip1 lx2 = Some lx3" by simp
      from "6.hyps"(3) [OF Inr False c1 r1 refl r2 refl st c2 "6.prems"(1,2) rc]
      obtain rest where l': "lx' = rparen # rest" and s4: "skip_open 1 lx4 = Some rest"
        by auto
      from c1 have lx: "lx = lparen # lx1"
        by (cases lx) (auto simp: lparen_def split: if_splits)
      from c2 have lx3: "lx3 = rparen # lx4"
        by (cases lx3) (auto simp: rparen_def split: if_splits)
      have "skip_open 1 lx = skip_open (Suc 1) lx1" using lx by simp
      also have "\<dots> = skip_open (Suc 1) lx2" using skip1_in_list [OF s1, of "Suc 1"] by simp
      also have "\<dots> = skip_open (Suc 1) lx3" using skip1_in_list [OF s2, of "Suc 1"] by simp
      also have "\<dots> = skip_open 1 lx4" using lx3 by simp
      finally show ?thesis using l' s4 by simp
    qed
  qed
qed

subsection \<open>Atoms: nil and t\<close>

text \<open>
  Claim C7. The identifier \<^verbatim>\<open>nil\<close> sets a destination of any type to the zero value of
  its type, the identifier \<^verbatim>\<open>t\<close> sets a boolean destination to true, and in both cases
  the lexer has moved past the token. The same holds for a whole call of
  \<^verbatim>\<open>Unmarshal\<close>.
\<close>

theorem C7_nil_and_t:
  "read (TokIdent ''nil'' # rest) (Value False d) = Inr (zero (typeOf d), rest) \<and>
   read (TokIdent ''t'' # rest) (Value False (VBool b)) = Inr (VBool True, rest) \<and>
   Unmarshal (TokIdent ''nil'' # rest) d = Inr (zero (typeOf d)) \<and>
   Unmarshal (TokIdent ''t'' # rest) (VBool b) = Inr (VBool True)"
  by (cases "typeOf d = TInterface")
     (simp_all add: read.simps Unmarshal_def Type_def Set_def SetBool_def)

subsection \<open>Dynamic slots\<close>

text \<open>
  Claim C1. Into a destination of interface type, whatever it held, the input
  \<^verbatim>\<open>("[]int" (1 2 3))\<close> decodes to the slice of integers 1, 2, 3 and the input
  \<^verbatim>\<open>("map[string]int" (("a" 1) ("b" 2)))\<close> decodes to the map from "a" to 1 and from
  "b" to 2: the descriptor is resolved by \<open>asType\<close>, the value that follows is read into a
  fresh value of that type, and that value is stored in the interface.
\<close>

theorem C1_dynamic_slot:
  "Unmarshal [lparen, TokString (dq ''[]int''), lparen, TokInt ''1'', TokInt ''2'', TokInt ''3'',
              rparen, rparen] (VIface x)
     = Inr (VIface (Some (VSlice TInt [VInt 1, VInt 2, VInt 3]))) \<and>
   Unmarshal [lparen, TokString (dq ''map[string]int''), lparen,
              lparen, TokString (dq ''a''), TokInt ''1'', rparen,
              lparen, TokString (dq ''b''), TokInt ''2'', rparen, rparen, rparen] (VIface x)
     = Inr (VIface (Some (VMap TString TInt
             (Some [(VString ''a'', VInt 1), (VString ''b'', VInt 2)]))))"
  by code_simp

text \<open>
  Claim C3, at the input where the code departs from it. After the list body of a dynamic
  slot, \<open>read\<close> calls \<^verbatim>\<open>lex.next()\<close> without looking at the token: in
  \<^verbatim>\<open>("int" 3 t ...\<close> any token \<open>t\<close> after the value is skipped and the call succeeds,
  and so does the call on \<^verbatim>\<open>("int" 3\<close>, where the input ends before the list is closed.
\<close>

theorem C3_token_skipped:
  "Unmarshal (lparen # TokString (dq ''int'') # TokInt ''3'' # t # rest) (VIface x)
     = Inr (VIface (Some (VInt 3))) \<and>
   Unmarshal [lparen, TokString (dq ''int''), TokInt ''3''] (VIface x)
     = Inr (VIface (Some (VInt 3)))"
  by code_simp

subsection \<open>Type descriptors\<close>

text \<open>
  Claim C2, at the input where the code departs from it. \<^verbatim>\<open>[2]int\<close> and
  \<^verbatim>\<open>string\<close> are valid descriptors, but \<open>asType\<close> cuts the key of
  \<^verbatim>\<open>map[[2]int]string\<close> at the first closing bracket, not at the matching one: the
  key descriptor becomes \<^verbatim>\<open>[2\<close>, and resolving it panics in the slice expression
  \<^verbatim>\<open>typ[i+1 : j]\<close> of the array case.
\<close>

theorem C2_map_array_key:
  "asType ''[2]int'' = Inr (TArray 2 TInt) \<and> asType ''string'' = Inr TString \<and>
   asType ''map[[2]int]string'' = Inl SliceBoundsOutOfRange"
  by code_simp

text \<open>
  With a key descriptor that holds no closing bracket (every atom), the first closing
  bracket is the matching one, and the map case resolves key and value as written.
\<close>

lemma IndexRune_append:
  "c \<notin> set xs \<Longrightarrow> IndexRune (xs @ c # ys) c = int (length xs)"
  by (induction xs) (auto simp: Let_def)

lemma asType_map_plain_key:
  assumes "CHR '']'' \<notin> set K"
  shows "asType (''map['' @ K @ '']'' @ V) =
           (case asType K of
              Inl e \<Rightarrow> Inl e
            | Inr k \<Rightarrow>
                (case asType V of
                   Inl e \<Rightarrow> Inl e
                 | Inr v \<Rightarrow> (if comparable k then Inr (TMap k v) else Inl ReflectMapKey)))"
proof -
  define td where "td = ''map['' @ K @ '']'' @ V"
  have i: "IndexRune td (CHR ''['') = 3"
    by (simp add: td_def)
  have j: "IndexRune td (CHR '']'') = 4 + int (length K)"
    using IndexRune_append [of "CHR '']''" "''map['' @ K" V] assms by (simp add: td_def)
  have atom: "atomTypes td = None"
    by (simp add: atomTypes_def td_def)
  have pre: "\<not> HasPrefix td ''[]''" "HasPrefix td ''map''" "td \<noteq> []" "td ! 0 \<noteq> CHR ''[''"
    by (simp_all add: HasPrefix_def td_def)
  have key: "substr td 4 (4 + int (length K)) = Inr K"
    by (simp add: substr_def td_def)
  have elem: "substr td (5 + int (length K)) (int (length td)) = Inr V"
  proof -
    have "drop (length (''map['' @ K @ '']'')) ((''map['' @ K @ '']'') @ V) = V"
      by (rule append_eq_conv_conj [THEN iffD1, THEN conjunct2, symmetric]) (rule refl)
    moreover have "nat (5 + int (length K)) = length (''map['' @ K @ '']'')"
      by simp
    moreover have "td = (''map['' @ K @ '']'') @ V"
      by (simp add: td_def)
    ultimately have "drop (nat (5 + int (length K))) td = V"
      by (simp only:)
    moreover have "length td = 5 + length K + length V"
      by (simp add: td_def)
    ultimately show ?thesis
      by (simp add: substr_def)
  qed
  have "asType td =
           (case asType K of
              Inl e \<Rightarrow> Inl e
            | Inr k \<Rightarrow>
                (case asType V of
                   Inl e \<Rightarrow> Inl e
                 | Inr v \<Rightarrow> (if comparable k then Inr (TMap k v) else Inl ReflectMapKey)))"
    by (subst asType.simps) (simp add: atom i j pre key elem Let_def)
  then show ?thesis by (simp add: td_def)
qed

subsection \<open>Slices\<close>

text \<open>
  The loop of the slice case reads one complete element after the other into a fresh
  zero value and appends it to what the slice holds.
\<close>

lemma readSlice_elems:
  assumes "list_all2 (decodes (zero t)) cs xs"
  shows "readSlice (concat cs @ rest) False t vs = readSlice rest False t (vs @ xs)"
  using assms
proof (induction arbitrary: vs rule: list_all2_induct)
  case Nil
  show ?case by simp
next
  case (Cons c cs x xs)
  have "readSlice (concat (c # cs) @ rest) False t vs
          = readSlice (concat cs @ rest) False t (vs @ [x])"
    using decodes_not_end [OF Cons.hyps(1), of "concat cs @ rest"]
      decodesD [OF Cons.hyps(1), of "concat cs @ rest"]
    by (simp add: readSlice.simps [of "c @ concat cs @ rest"])
  then show ?case using Cons.IH [of "vs @ [x]"] by simp
qed

lemma read_slice:
  assumes "list_all2 (decodes (zero t)) cs xs"
  shows "read (lparen # concat cs @ rparen # rest) (Value False (VSlice t vs))
           = Inr (VSlice t (vs @ xs), rest)"
proof -
  have "readSlice (concat cs @ rparen # rest) False t vs = Inr (vs @ xs, rparen # rest)"
    using readSlice_elems [OF assms, of "rparen # rest" vs]
    by (simp add: readSlice.simps [of "rparen # rest"])
  then show ?thesis
    by (simp add: read_lparen readList_kinds)
qed

text \<open>
  Claim C9. The elements of a list are appended in the order of the input: when the list body
  is a sequence of complete element encodings \<open>cs\<close> that decode to \<open>xs\<close>, decoding into
  a fresh (empty) slice gives exactly \<open>xs\<close>, in that order.
\<close>

theorem C9_slice_order:
  assumes "list_all2 (decodes (zero t)) cs xs"
  shows "Unmarshal (lparen # concat cs @ rparen # rest) (VSlice t []) = Inr (VSlice t xs)"
  using read_slice [OF assms, of rest "[]"] by (simp add: Unmarshal_def)

text \<open>
  Claim C9, witness: \<^verbatim>\<open>(1 2 3)\<close> into a fresh slice of integers gives 1, 2, 3.
\<close>

theorem C9_slice_order_witness:
  "list_all2 (decodes (zero TInt)) [[TokInt ''1''], [TokInt ''2''], [TokInt ''3'']]
     [VInt 1, VInt 2, VInt 3] \<and>
   Unmarshal [lparen, TokInt ''1'', TokInt ''2'', TokInt ''3'', rparen] (VSlice TInt [])
     = Inr (VSlice TInt [VInt 1, VInt 2, VInt 3])"
proof -
  have h: "list_all2 (decodes (zero TInt)) [[TokInt ''1''], [TokInt ''2''], [TokInt ''3'']]
             [VInt 1, VInt 2, VInt 3]"
    using decodes_int [of 0 "''1''"] decodes_int [of 0 "''2''"] decodes_int [of 0 "''3''"]
    by (simp add: Atoi_123)
  show ?thesis using h C9_slice_order [OF h, of "[]"] by simp
qed

text \<open>
  Claim C4, counterexample. The slice case never resets the destination: decoding
  \<^verbatim>\<open>(1 2 3)\<close> into a slice that holds 9 gives 9, 1, 2, 3, so the result is not
  independent of what the slice held before the call.
\<close>

theorem C4_counterexample:
  "Unmarshal [lparen, TokInt ''1'', TokInt ''2'', TokInt ''3'', rparen] (VSlice TInt [VInt 9])
     = Inr (VSlice TInt [VInt 9, VInt 1, VInt 2, VInt 3])"
  by code_simp

text \<open>
  Claim C4, amended. Decoding a list into a slice appends the decoded elements, in the
  order of the input, to the elements that the slice held before the call; the result is
  exactly the elements of the input only when the slice was empty.
\<close>

theorem C4_slice_appends:
  assumes "list_all2 (decodes (zero t)) cs xs"
  shows "Unmarshal (lparen # concat cs @ rparen # rest) (VSlice t vs) = Inr (VSlice t (vs @ xs))"
  using read_slice [OF assms, of rest vs] by (simp add: Unmarshal_def)

text \<open>
  Claim C4, witness of the amended statement: \<^verbatim>\<open>(1 2)\<close> into a slice that holds 9, 8.
\<close>

theorem C4_slice_appends_witness:
  "list_all2 (decodes (zero TInt)) [[TokInt ''1''], [TokInt ''2'']] [VInt 1, VInt 2] \<and>
   Unmarshal [lparen, TokInt ''1'', TokInt ''2'', rparen] (VSlice TInt [VInt 9, VInt 8])
     = Inr (VSlice TInt [VInt 9, VInt 8, VInt 1, VInt 2])"
proof -
  have h: "list_all2 (decodes (zero TInt)) [[TokInt ''1''], [TokInt ''2'']] [VInt 1, VInt 2]"
    using decodes_int [of 0 "''1''"] decodes_int [of 0 "''2''"] by (simp add: Atoi_123)
  show ?thesis using h C4_slice_appends [OF h, of "[]" "[VInt 9, VInt 8]"] by simp
qed

subsection \<open>Arrays\<close>

text \<open>
  Claim C10, at the input where the code departs from it. The array has one element of
  interface type and the list has two elements, \<^verbatim>\<open>("int" 3 4)\<close> and \<^verbatim>\<open>5\<close>. Reading
  the first element skips the token \<^verbatim>\<open>4\<close> and leaves the lexer on the parenthesis that
  closes the element, which the array loop takes for the end of the list: the call succeeds
  and the second element is dropped. This is the unchecked \<^verbatim>\<open>lex.next()\<close> of claim C3.
\<close>

theorem C10_extra_element_dropped:
  "Unmarshal [lparen, lparen, TokString (dq ''int''), TokInt ''3'', TokInt ''4'', rparen,
              TokInt ''5'', rparen] (VArray TInterface [VIface None])
     = Inr (VArray TInterface [VIface (Some (VInt 3))])"
  by code_simp

text \<open>
  Without dynamic slots the index is guarded as the claim says: a list with more
  s-expressions than the array has elements never decodes.
\<close>

lemma readArray_overflow:
  assumes "list_all val_plain vs" and "list_all one_sexp gs"
    and "i \<le> length vs" and "length vs < i + length gs"
  shows "\<exists>e. readArray (concat gs @ rest) ro vs i = Inl e"
  using assms
proof (induction gs arbitrary: vs i)
  case Nil
  then show ?case by simp
next
  case (Cons g gs)
  let ?R = "concat gs @ rest"
  let ?lx = "g @ ?R"
  have g: "one_sexp g" and gs: "list_all one_sexp gs" using Cons.prems(2) by simp_all
  have sk: "skip1 ?lx = Some ?R" using g by (rule one_sexp_append)
  have ne: "endList ?lx = Inr False" using g by (rule one_sexp_not_end)
  show ?case
  proof (cases "i < length vs")
    case False
    then show ?thesis using ne by (simp add: readArray.simps [of ?lx] Index_def)
  next
    case True
    then have ix: "Index ro vs i = Inr (Value ro (vs ! i))" by (simp add: Index_def)
    have pl: "rv_plain (Value ro (vs ! i))"
      using Cons.prems(1) True by (simp add: rv_plain_def list_all_length)
    show ?thesis
    proof (cases "read ?lx (Value ro (vs ! i))")
      case (Inl e)
      then show ?thesis using ne ix by (simp add: readArray.simps [of ?lx])
    next
      case (Inr p)
      then obtain x lx1 where r1: "read ?lx (Value ro (vs ! i)) = Inr (x, lx1)"
        by (cases p) auto
      from exact(1) [OF pl r1] sk have x: "val_plain x" and lx1: "lx1 = ?R" by simp_all
      have p': "list_all val_plain (vs[i := x])" using Cons.prems(1) x by (rule plain_update)
      have "\<exists>e. readArray ?R ro (vs[i := x]) (Suc i) = Inl e"
        using Cons.IH [OF p' gs, of "Suc i"] True Cons.prems(4) by simp
      then show ?thesis using ne ix r1 lx1 by (simp add: readArray.simps [of ?lx])
    qed
  qed
qed

lemma array_overflow_plain:
  assumes "list_all val_plain vs" and "list_all one_sexp gs" and "length vs < length gs"
  shows "\<exists>e. Unmarshal (lparen # concat gs @ rest) (VArray ty vs) = Inl e"
  using readArray_overflow [OF assms(1,2), of 0 rest False] assms(3)
  by (auto simp: Unmarshal_def read_lparen readList_kinds)

subsection \<open>Structs\<close>

text \<open>
  The loop of the struct case stores well-formed entries with distinct names one after
  the other; stores to different fields commute.
\<close>

lemma map_of_set_field:
  "map_of (set_field n x fs) m = (if m = n \<and> map_of fs n \<noteq> None then Some x else map_of fs m)"
  by (induction fs) auto

lemma set_field_commute:
  "n \<noteq> m \<Longrightarrow> set_field n x (set_field m y fs) = set_field m y (set_field n x fs)"
  by (induction fs) auto

lemma readStruct_entry:
  assumes "entry_ok fs e"
  shows "readStruct (entry_tokens e @ rest) False fs = readStruct rest False (store_entry e fs)"
proof -
  obtain n c x where e: "e = (n, c, x)" by (cases e) auto
  from assms e obtain d where ex: "exported n" and d: "map_of fs n = Some d"
    and dec: "decodes d c x"
    by (auto simp: entry_ok_def split: option.splits)
  have "read (c @ rparen # rest) (FieldByName False fs n) = Inr (x, rparen # rest)"
    using decodesD [OF dec, of "rparen # rest"] ex d by (simp add: FieldByName_def)
  then show ?thesis
    using e
    by (subst readStruct.simps)
       (simp add: entry_tokens_def store_entry_def lparen_def rparen_def)
qed

lemma readStruct_entries:
  assumes "distinct (map fst es)" and "\<forall>e\<in>set es. entry_ok fs e"
  shows "readStruct (concat (map entry_tokens es) @ rest) False fs
           = readStruct rest False (fold store_entry es fs)"
  using assms
proof (induction es arbitrary: fs)
  case Nil
  show ?case by simp
next
  case (Cons e es)
  have ok: "\<forall>e'\<in>set es. entry_ok (store_entry e fs) e'"
  proof
    fix e' assume e': "e' \<in> set es"
    moreover have "fst e \<notin> fst ` set es" using Cons.prems(1) by simp
    ultimately have "fst e' \<noteq> fst e" by (metis imageI)
    moreover have "entry_ok fs e'" using Cons.prems(2) e' by simp
    ultimately show "entry_ok (store_entry e fs) e'"
      by (simp add: entry_ok_def store_entry_def map_of_set_field)
  qed
  have "readStruct (concat (map entry_tokens (e # es)) @ rest) False fs
          = readStruct (concat (map entry_tokens es) @ rest) False (store_entry e fs)"
    using readStruct_entry [of fs e "concat (map entry_tokens es) @ rest"] Cons.prems(2)
    by simp
  also have "\<dots> = readStruct rest False (fold store_entry es (store_entry e fs))"
    using Cons.IH [OF _ ok] Cons.prems(1) by simp
  finally show ?case by simp
qed

lemma fold_store_perm:
  assumes "distinct (map fst es)" and "mset es' = mset es"
  shows "fold store_entry es' fs = fold store_entry es fs"
proof -
  have comm: "store_entry a \<circ> store_entry b = store_entry b \<circ> store_entry a"
    if "a \<in> set es" "b \<in> set es" for a b
  proof (cases "a = b")
    case True
    then show ?thesis by simp
  next
    case False
    with that assms(1) have "fst a \<noteq> fst b"
      by (meson distinct_map inj_onD)
    then show ?thesis
      by (auto simp: store_entry_def fun_eq_iff set_field_commute)
  qed
  have "fold store_entry es = fold store_entry es'"
    by (rule fold_multiset_equiv) (use comm assms(2) in auto)
  then show ?thesis by simp
qed

lemma read_struct_entries:
  assumes "distinct (map fst es)" and "\<forall>e\<in>set es. entry_ok fs e"
  shows "read (lparen # concat (map entry_tokens es) @ rparen # rest) (Value False (VStruct fs))
           = Inr (VStruct (fold store_entry es fs), rest)"
  using readStruct_entries [OF assms, of "rparen # rest"]
  by (simp add: read_lparen readList_kinds readStruct.simps [of "rparen # rest"])

lemma read_Invalid:
  "read lx Invalid = Inl ReflectZeroValue \<or> read lx Invalid = Inl (UnexpectedToken (lex_text lx))"
  by (simp add: read.simps [of lx] readList.simps [of _ Invalid] Type_def SetBool_def
                SetString_def SetInt_def SetFloat_def
           split: option.splits token.splits)

lemma readStruct_unknown:
  assumes "map_of fs name = None"
  shows "readStruct (lparen # TokIdent name # rest) ro fs = Inl ReflectZeroValue \<or>
         readStruct (lparen # TokIdent name # rest) ro fs = Inl (UnexpectedToken (lex_text rest))"
proof -
  have fld: "FieldByName ro fs name = Invalid"
    using assms by (simp add: FieldByName_def)
  from read_Invalid [of rest] show ?thesis
  proof
    assume "read rest Invalid = Inl ReflectZeroValue"
    then have "readStruct (lparen # TokIdent name # rest) ro fs = Inl ReflectZeroValue"
      by (subst readStruct.simps) (simp add: fld lparen_def rparen_def)
    then show ?thesis by simp
  next
    assume "read rest Invalid = Inl (UnexpectedToken (lex_text rest))"
    then have "readStruct (lparen # TokIdent name # rest) ro fs
                 = Inl (UnexpectedToken (lex_text rest))"
      by (subst readStruct.simps) (simp add: fld lparen_def rparen_def)
    then show ?thesis by simp
  qed
qed

lemma readStruct_unknown_later:
  assumes "list_all (\<lambda>f. val_plain (snd f)) fs" and "map_of fs name = None"
    and "list_all one_sexp gs"
  shows "\<exists>e. readStruct (concat gs @ lparen # TokIdent name # rest) ro fs = Inl e"
  using assms
proof (induction gs arbitrary: fs)
  case Nil
  from readStruct_unknown [OF Nil.prems(2), of rest ro] show ?case by auto
next
  case (Cons g gs)
  let ?R = "concat gs @ lparen # TokIdent name # rest"
  let ?lx = "g @ ?R"
  have g: "one_sexp g" and gs: "list_all one_sexp gs" using Cons.prems(3) by simp_all
  have sk: "skip1 ?lx = Some ?R" using g by (rule one_sexp_append)
  have ne: "endList ?lx = Inr False" using g by (rule one_sexp_not_end)
  show ?case
  proof (cases "readStruct ?lx ro fs")
    case (Inl e)
    then show ?thesis by simp
  next
    case (Inr p)
    then obtain fs' lx' where ok: "readStruct ?lx ro fs = Inr (fs', lx')" by (cases p) auto
    from ok ne obtain lx1 n x lx2 lx3 where
      c1: "consume ?lx (CHR ''('') = Inr lx1" and
      tk: "lex_token lx1 = Some (TokIdent n)" and
      r1: "read (lex_next lx1) (FieldByName ro fs n) = Inr (x, lx2)" and
      c2: "consume lx2 (CHR '')'') = Inr lx3" and
      rc: "readStruct lx3 ro (set_field n x fs) = Inr (fs', lx')"
      by (auto simp: readStruct.simps [of ?lx]
               split: sum.splits prod.splits option.splits token.splits)
    have "rv_plain (FieldByName ro fs n)" using Cons.prems(1) by (rule plain_FieldByName)
    from exact(1) [OF this r1] have x: "val_plain x" and s1: "skip1 (lex_next lx1) = Some lx2"
      by simp_all
    have "skip1 ?lx = Some lx3" using c1 tk s1 c2 by (rule entry_exact)
    with sk have lx3: "lx3 = ?R" by simp
    have p: "list_all (\<lambda>f. val_plain (snd f)) (set_field n x fs)"
      using Cons.prems(1) x by (rule plain_set_field)
    have u: "map_of (set_field n x fs) name = None"
      using Cons.prems(2) by (auto simp: map_of_set_field)
    from Cons.IH [OF p u gs] rc lx3 show ?thesis by simp
  qed
qed

text \<open>
  Claim C6, counterexample. No unknown-field condition is reported. The entries
  \<^verbatim>\<open>(Z foo)\<close>, for a name that is no field, and \<^verbatim>\<open>(X foo)\<close>, for a field, fail with
  the same panic, "unexpected token"; and the input \<^verbatim>\<open>(point (Z 1))\<close> fails in
  \<open>consume\<close> at the record name, before any field name is read.
\<close>

theorem C6_counterexample:
  "Unmarshal [lparen, lparen, TokIdent ''Z'', TokIdent ''foo'', rparen, rparen]
     (VStruct [(''X'', VInt 0), (''Y'', VInt 0)]) = Inl (UnexpectedToken ''foo'') \<and>
   Unmarshal [lparen, lparen, TokIdent ''X'', TokIdent ''foo'', rparen, rparen]
     (VStruct [(''X'', VInt 0), (''Y'', VInt 0)]) = Inl (UnexpectedToken ''foo'') \<and>
   Unmarshal [lparen, TokIdent ''point'', lparen, TokIdent ''Z'', TokInt ''1'', rparen, rparen]
     (VStruct [(''X'', VInt 0), (''Y'', VInt 0)]) = Inl (GotWant ''point'' (CHR ''(''))"
  by code_simp

text \<open>
  Claim C6, amended. For every record destination without dynamic slots: if the list of
  entries holds, after any number of s-expressions, an entry that starts with a name that
  is no field of the destination, the call fails and never succeeds. There is no
  unknown-field condition: where the unknown entry comes first the error is the panic that
  \<open>read\<close> raises on the zero Value returned by \<^verbatim>\<open>FieldByName\<close>, a panic of
  \<^verbatim>\<open>reflect\<close> or "unexpected token".
\<close>

theorem C6_unknown_field:
  assumes "val_plain (VStruct fs)" and "map_of fs name = None" and "list_all one_sexp gs"
  shows "(\<exists>e. Unmarshal (lparen # concat gs @ lparen # TokIdent name # rest) (VStruct fs)
                = Inl e) \<and>
         (Unmarshal (lparen # lparen # TokIdent name # rest) (VStruct fs) = Inl ReflectZeroValue \<or>
          Unmarshal (lparen # lparen # TokIdent name # rest) (VStruct fs)
            = Inl (UnexpectedToken (lex_text rest)))"
proof
  have "list_all (\<lambda>f. val_plain (snd f)) fs" using assms(1) by simp
  from readStruct_unknown_later [OF this assms(2,3), of rest False]
  show "\<exists>e. Unmarshal (lparen # concat gs @ lparen # TokIdent name # rest) (VStruct fs) = Inl e"
    by (auto simp: Unmarshal_def read_lparen readList_kinds)
next
  from readStruct_unknown [OF assms(2), of rest False]
  show "Unmarshal (lparen # lparen # TokIdent name # rest) (VStruct fs) = Inl ReflectZeroValue \<or>
        Unmarshal (lparen # lparen # TokIdent name # rest) (VStruct fs)
          = Inl (UnexpectedToken (lex_text rest))"
    by (auto simp: Unmarshal_def read_lparen readList_kinds)
qed

text \<open>
  Claim C6, witness of the amended statement: \<^verbatim>\<open>((X 1) (Z 1))\<close> and \<^verbatim>\<open>((Z 1))\<close>
  into a struct with the integer fields X and Y.
\<close>

theorem C6_unknown_field_witness:
  "val_plain (VStruct [(''X'', VInt 0), (''Y'', VInt 0)]) \<and>
   map_of [(''X'', VInt 0), (''Y'', VInt 0)] ''Z'' = None \<and>
   list_all one_sexp [[lparen, TokIdent ''X'', TokInt ''1'', rparen]] \<and>
   Unmarshal [lparen, lparen, TokIdent ''X'', TokInt ''1'', rparen,
              lparen, TokIdent ''Z'', TokInt ''1'', rparen, rparen]
     (VStruct [(''X'', VInt 0), (''Y'', VInt 0)]) = Inl ReflectZeroValue \<and>
   Unmarshal [lparen, lparen, TokIdent ''Z'', TokInt ''1'', rparen, rparen]
     (VStruct [(''X'', VInt 0), (''Y'', VInt 0)]) = Inl ReflectZeroValue"
proof -
  have h1: "val_plain (VStruct [(''X'', VInt 0), (''Y'', VInt 0)])" by simp
  have h2: "map_of [(''X'', VInt 0), (''Y'', VInt 0)] ''Z'' = None" by simp
  have h3: "list_all one_sexp [[lparen, TokIdent ''X'', TokInt ''1'', rparen]]"
    by (simp add: one_sexp_def)
  have ev: "Unmarshal [lparen, lparen, TokIdent ''X'', TokInt ''1'', rparen,
                       lparen, TokIdent ''Z'', TokInt ''1'', rparen, rparen]
              (VStruct [(''X'', VInt 0), (''Y'', VInt 0)]) = Inl ReflectZeroValue"
    by code_simp
  have ev2: "Unmarshal [lparen, lparen, TokIdent ''Z'', TokInt ''1'', rparen, rparen]
               (VStruct [(''X'', VInt 0), (''Y'', VInt 0)]) = Inl ReflectZeroValue"
    by code_simp
  show ?thesis
    using h1 h2 h3 ev ev2 C6_unknown_field [OF h1 h2 h3, of "[TokInt ''1'', rparen, rparen]"]
    by auto
qed

text \<open>
  Claim C8, counterexample. Two inputs with the same set of entries, \<^verbatim>\<open>(X 1)\<close> and
  \<^verbatim>\<open>(X 2)\<close>, in different orders decode into fresh records to different results, since a
  later entry for a field overwrites an earlier one. And an input that starts with a record
  name, as \<^verbatim>\<open>(point (X 1) (Y 2))\<close>, does not decode at all: the struct case expects an
  opening parenthesis where the name stands.
\<close>

theorem C8_counterexample:
  "Unmarshal [lparen, lparen, TokIdent ''X'', TokInt ''1'', rparen,
                      lparen, TokIdent ''X'', TokInt ''2'', rparen, rparen]
     (zero (TStruct [(''X'', TInt)])) = Inr (VStruct [(''X'', VInt 2)]) \<and>
   Unmarshal [lparen, lparen, TokIdent ''X'', TokInt ''2'', rparen,
                      lparen, TokIdent ''X'', TokInt ''1'', rparen, rparen]
     (zero (TStruct [(''X'', TInt)])) = Inr (VStruct [(''X'', VInt 1)]) \<and>
   Unmarshal [lparen, TokIdent ''point'', lparen, TokIdent ''X'', TokInt ''1'', rparen,
                      lparen, TokIdent ''Y'', TokInt ''2'', rparen, rparen]
     (zero (TStruct [(''X'', TInt), (''Y'', TInt)])) = Inl (GotWant ''point'' (CHR ''(''))"
  by code_simp

text \<open>
  Claim C8, amended. For inputs of the form \<^verbatim>\<open>((name value) ...)\<close> whose entries have
  pairwise distinct names and are well formed for the destination, the order of the entries
  does not matter: two inputs with the same entries in different orders, decoded into fresh
  destinations of the same record type, both succeed and give the same record, in which
  each named field holds its decoded value.
\<close>

theorem C8_order_independent:
  assumes "distinct (map fst es)"
    and "\<forall>e\<in>set es. entry_ok (map (\<lambda>(n, t). (n, zero t)) fts) e"
    and "mset es' = mset es"
  shows "Unmarshal (lparen # concat (map entry_tokens es') @ rparen # rest') (zero (TStruct fts))
           = Unmarshal (lparen # concat (map entry_tokens es) @ rparen # rest)
               (zero (TStruct fts)) \<and>
         Unmarshal (lparen # concat (map entry_tokens es) @ rparen # rest) (zero (TStruct fts))
           = Inr (VStruct (fold store_entry es (map (\<lambda>(n, t). (n, zero t)) fts)))"
proof -
  let ?fs = "map (\<lambda>(n, t). (n, zero t)) fts"
  have "mset (map fst es') = mset (map fst es)" using assms(3) by simp
  then have d': "distinct (map fst es')"
    using assms(1) by (metis mset_eq_imp_distinct_iff)
  have "set es' = set es" using assms(3) by (rule mset_eq_setD)
  then have ok': "\<forall>e\<in>set es'. entry_ok ?fs e" using assms(2) by simp
  show ?thesis
    using read_struct_entries [OF assms(1,2), of rest]
      read_struct_entries [OF d' ok', of rest']
      fold_store_perm [OF assms(1,3), of ?fs]
    by (simp add: Unmarshal_def)
qed

text \<open>
  Claim C8, witness of the amended statement: \<^verbatim>\<open>((Y 2) (X 1))\<close> and
  \<^verbatim>\<open>((X 1) (Y 2))\<close> into a fresh struct with the integer fields X and Y.
\<close>

theorem C8_order_independent_witness:
  "distinct (map fst [(''X'', [TokInt ''1''], VInt 1), (''Y'', [TokInt ''2''], VInt 2)]) \<and>
   entry_ok (map (\<lambda>(n, t). (n, zero t)) [(''X'', TInt), (''Y'', TInt)])
     (''X'', [TokInt ''1''], VInt 1) \<and>
   entry_ok (map (\<lambda>(n, t). (n, zero t)) [(''X'', TInt), (''Y'', TInt)])
     (''Y'', [TokInt ''2''], VInt 2) \<and>
   Unmarshal [lparen, lparen, TokIdent ''Y'', TokInt ''2'', rparen,
                      lparen, TokIdent ''X'', TokInt ''1'', rparen, rparen]
     (zero (TStruct [(''X'', TInt), (''Y'', TInt)]))
     = Unmarshal [lparen, lparen, TokIdent ''X'', TokInt ''1'', rparen,
                          lparen, TokIdent ''Y'', TokInt ''2'', rparen, rparen]
         (zero (TStruct [(''X'', TInt), (''Y'', TInt)])) \<and>
   Unmarshal [lparen, lparen, TokIdent ''X'', TokInt ''1'', rparen,
                      lparen, TokIdent ''Y'', TokInt ''2'', rparen, rparen]
     (zero (TStruct [(''X'', TInt), (''Y'', TInt)]))
     = Inr (VStruct [(''X'', VInt 1), (''Y'', VInt 2)])"
proof -
  let ?fts = "[(''X'', TInt), (''Y'', TInt)]"
  let ?fs = "map (\<lambda>(n, t). (n, zero t)) ?fts"
  let ?es = "[(''X'', [TokInt ''1''], VInt 1), (''Y'', [TokInt ''2''], VInt 2)]"
  let ?es' = "[(''Y'', [TokInt ''2''], VInt 2), (''X'', [TokInt ''1''], VInt 1)]"
  have h1: "distinct (map fst ?es)" by simp
  have h2: "entry_ok ?fs (''X'', [TokInt ''1''], VInt 1)"
    using decodes_int [of 0 "''1''"] by (simp add: entry_ok_def exported_def Atoi_123)
  have h3: "entry_ok ?fs (''Y'', [TokInt ''2''], VInt 2)"
    using decodes_int [of 0 "''2''"] by (simp add: entry_ok_def exported_def Atoi_123)
  have h4: "\<forall>e\<in>set ?es. entry_ok ?fs e" using h2 h3 by simp
  have h5: "mset ?es' = mset ?es" by simp
  show ?thesis
    using h1 h2 h3 C8_order_independent [OF h1 h4 h5, of "[]" "[]"]
    by (simp add: entry_tokens_def store_entry_def)
qed

subsection \<open>Lists that are not closed\<close>

lemma readSlice_ints_eof: "readSlice (map TokInt ds) False TInt vs = Inl EndOfFile"
proof (induction ds arbitrary: vs)
  case Nil
  show ?case by (simp add: readSlice.simps [of "[]"])
next
  case (Cons a ds)
  show ?case
    using Cons.IH [of "vs @ [VInt (Atoi a)]"]
    by (simp add: readSlice.simps [of "TokInt a # map TokInt ds"] read.simps [of "TokInt a # map TokInt ds"]
                  SetInt_def rparen_def)
qed

text \<open>
  Claim C5, counterexample. Where the input ends inside a struct entry, the call fails but
  the error does not report the end of the input as such: \<^verbatim>\<open>((X 1\<close> fails with the
  mismatch that \<open>consume\<close> reports for the empty token text, and \<^verbatim>\<open>((X\<close> fails with
  "unexpected token" for the empty token text.
\<close>

theorem C5_counterexample:
  "Unmarshal [lparen, lparen, TokIdent ''X'', TokInt ''1''] (VStruct [(''X'', VInt 0)])
     = Inl (GotWant [] (CHR '')'')) \<and>
   Unmarshal [lparen, lparen, TokIdent ''X''] (VStruct [(''X'', VInt 0)])
     = Inl (UnexpectedToken [])"
  by code_simp

text \<open>
  Claim C5, amended. For every destination without dynamic slots and every input that
  opens a list and ends before the parenthesis that closes it, at any depth of nesting, the
  call fails; it never succeeds with a truncated value. A call that succeeds has read
  exactly up to the parenthesis that matches the opening one. The error is the panic met
  first: "end of file" where \<open>endList\<close> meets the end of the input, as for every unclosed
  list of integers decoded into a slice of integers.
\<close>

theorem C5_unclosed_list:
  assumes "val_plain d"
  shows "(read (lparen # ts) (Value ro d) = Inr (d', rest) \<longrightarrow> skip_open 1 ts = Some rest) \<and>
         (skip_open 1 ts = None \<longrightarrow> (\<exists>e. Unmarshal (lparen # ts) d = Inl e)) \<and>
         Unmarshal (lparen # map TokInt ds) (VSlice TInt vs) = Inl EndOfFile"
proof (intro conjI impI)
  assume "read (lparen # ts) (Value ro d) = Inr (d', rest)"
  from exact(1) [OF _ this] assms show "skip_open 1 ts = Some rest"
    by (simp add: rv_plain_def)
next
  assume no: "skip_open 1 ts = None"
  show "\<exists>e. Unmarshal (lparen # ts) d = Inl e"
  proof (cases "read (lparen # ts) (Value False d)")
    case (Inl e)
    then show ?thesis by (simp add: Unmarshal_def)
  next
    case (Inr p)
    then obtain d'' r where "read (lparen # ts) (Value False d) = Inr (d'', r)"
      by (cases p) auto
    from exact(1) [OF _ this] assms no show ?thesis by (simp add: rv_plain_def)
  qed
next
  show "Unmarshal (lparen # map TokInt ds) (VSlice TInt vs) = Inl EndOfFile"
    by (simp add: Unmarshal_def read_lparen readList_kinds readSlice_ints_eof)
qed

text \<open>
  Claim C5, witness of the amended statement: \<^verbatim>\<open>((1))\<close> into a slice of slices of
  integers succeeds and is read to its end; \<^verbatim>\<open>((1) (2\<close> into the same destination and
  \<^verbatim>\<open>(1 2\<close> into a slice of integers fail with "end of file".
\<close>

theorem C5_unclosed_list_witness:
  "val_plain (VSlice (TSlice TInt) []) \<and>
   read [lparen, lparen, TokInt ''1'', rparen, rparen] (Value False (VSlice (TSlice TInt) []))
     = Inr (VSlice (TSlice TInt) [VSlice TInt [VInt 1]], []) \<and>
   skip_open 1 [lparen, TokInt ''1'', rparen, rparen] = Some [] \<and>
   skip_open 1 [lparen, TokInt ''1'', rparen, lparen, TokInt ''2''] = None \<and>
   Unmarshal [lparen, lparen, TokInt ''1'', rparen, lparen, TokInt ''2'']
     (VSlice (TSlice TInt) []) = Inl EndOfFile \<and>
   Unmarshal [lparen, TokInt ''1'', TokInt ''2''] (VSlice TInt []) = Inl EndOfFile"
proof -
  have h: "val_plain (VSlice (TSlice TInt) [])" by simp
  have r: "read [lparen, lparen, TokInt ''1'', rparen, rparen]
             (Value False (VSlice (TSlice TInt) []))
             = Inr (VSlice (TSlice TInt) [VSlice TInt [VInt 1]], [])"
    by code_simp
  have n: "skip_open 1 [lparen, TokInt ''1'', rparen, lparen, TokInt ''2''] = None"
    by (simp add: lparen_def rparen_def)
  have ev: "Unmarshal [lparen, lparen, TokInt ''1'', rparen, lparen, TokInt ''2'']
              (VSlice (TSlice TInt) []) = Inl EndOfFile"
    by code_simp
  show ?thesis
    using h r n ev
      C5_unclosed_list [OF h, of "[lparen, TokInt ''1'', rparen, rparen]" False
                          "VSlice (TSlice TInt) [VSlice TInt [VInt 1]]" "[]" "[''1'', ''2'']" "[]"]
      C5_unclosed_list [OF h, of "[lparen, TokInt ''1'', rparen, lparen, TokInt ''2'']" False
                          "VSlice (TSlice TInt) []" "[]" "[''1'', ''2'']" "[]"]
    by simp
qed

end
